theory Spec2Isabelle
  imports Complex_Main "HOL-Library.Multiset"
begin

section \<open>The falling-block engine (class TetrisGame)\<close>

subsection \<open>Values and faults\<close>

text \<open>
  A matrix is a JavaScript array of arrays of numbers; the board is the 20 x 10 matrix
  made by \<open>createBoard\<close>, a piece is one of the square matrices of \<open>PIECES\<close>.
  Indices that the engine computes (\<open>y + offset.y\<close>, \<open>x + offset.x\<close>) are integers and
  may be negative or too large, so positions are \<open>int\<close>.
\<close>

type_synonym matrix = "int list list"

text \<open>
  What a call can do instead of returning normally:
  \<^item> \<open>TypeError\<close>: JavaScript throws (a property of \<open>undefined\<close> or \<open>null\<close> is used);
  \<^item> \<open>OutsideGrid\<close>: an array cell outside the stored cells is read as \<open>undefined\<close> and
    stored, or a value is written outside the stored cells (JavaScript grows the array
    or adds a property); the matrix stops being a grid of numbers and the model stops;
  \<^item> \<open>NoReturn\<close>: a loop never ends.
\<close>

datatype fault = TypeError | OutsideGrid | NoReturn

definition COLS :: nat where "COLS = 10"
definition ROWS :: nat where "ROWS = 20"

definition PIECES :: "matrix list" where
  "PIECES =
    [ [[0, 1, 0],
       [1, 1, 1],
       [0, 0, 0]],
      [[2, 2],
       [2, 2]],
      [[0, 3, 3],
       [3, 3, 0],
       [0, 0, 0]],
      [[4, 4, 0],
       [0, 4, 4],
       [0, 0, 0]],
      [[0, 5, 0, 0],
       [0, 5, 0, 0],
       [0, 5, 0, 0],
       [0, 5, 0, 0]],
      [[0, 6, 0],
       [0, 6, 0],
       [6, 6, 0]],
      [[0, 7, 0],
       [0, 7, 0],
       [0, 7, 7]] ]"

text \<open>\<open>xs[i]\<close> in JavaScript: \<open>None\<close> stands for \<open>undefined\<close>.\<close>

definition js_get :: "'a list \<Rightarrow> int \<Rightarrow> 'a option" where
  "js_get xs i = (if 0 \<le> i \<and> i < int (length xs) then Some (xs ! nat i) else None)"

definition createBoard :: matrix where
  "createBoard = replicate ROWS (replicate COLS 0)"

subsection \<open>\<open>_rotateMatrix\<close>\<close>

text \<open>
  \<open>[matrix[x][y], matrix[y][x]] = [matrix[y][x], matrix[x][y]]\<close> for \<open>x < y < matrix.length\<close>:
  both cells are read, then written one after the other.
\<close>

definition swap_cells :: "matrix \<Rightarrow> nat \<Rightarrow> nat \<Rightarrow> fault + matrix" where
  "swap_cells m x y =
     (if y < length (m ! x) \<and> x < length (m ! y) then
        (let a = m ! y ! x;
             b = m ! x ! y;
             m1 = m[x := (m ! x)[y := a]];
             m2 = m1[y := (m1 ! y)[x := b]]
         in Inr m2)
      else Inl OutsideGrid)"

text \<open>The inner loop \<open>for (x = 0; x < y; ++x)\<close>, over the columns still to visit.\<close>

fun transpose_row :: "matrix \<Rightarrow> nat \<Rightarrow> nat list \<Rightarrow> fault + matrix" where
  "transpose_row m y [] = Inr m"
| "transpose_row m y (x # xs) =
     (case swap_cells m x y of
        Inl e \<Rightarrow> Inl e
      | Inr m' \<Rightarrow> transpose_row m' y xs)"

text \<open>The outer loop \<open>for (y = 0; y < matrix.length; ++y)\<close>, over the rows still to visit.\<close>

fun transpose_rows :: "matrix \<Rightarrow> nat list \<Rightarrow> fault + matrix" where
  "transpose_rows m [] = Inr m"
| "transpose_rows m (y # ys) =
     (case transpose_row m y [0..<y] of
        Inl e \<Rightarrow> Inl e
      | Inr m' \<Rightarrow> transpose_rows m' ys)"

definition rotateMatrix :: "matrix \<Rightarrow> int \<Rightarrow> fault + matrix" where
  "rotateMatrix m dir =
     (case transpose_rows m [0..<length m] of
        Inl e \<Rightarrow> Inl e
      | Inr t \<Rightarrow> Inr (if dir > 0 then map rev t else rev t))"

text \<open>\<open>n\<close> calls of \<open>_rotateMatrix\<close> on the same matrix with the same direction.\<close>

primrec rotateMatrix_times :: "nat \<Rightarrow> matrix \<Rightarrow> int \<Rightarrow> fault + matrix" where
  "rotateMatrix_times 0 m dir = Inr m"
| "rotateMatrix_times (Suc n) m dir =
     (case rotateMatrix m dir of
        Inl e \<Rightarrow> Inl e
      | Inr m' \<Rightarrow> rotateMatrix_times n m' dir)"

subsection \<open>\<open>collide\<close> and \<open>merge\<close>\<close>

text \<open>
  \<open>(board[r] && board[r][c]) !== 0\<close>: a missing row gives \<open>undefined\<close>, a missing cell of
  an existing row gives \<open>undefined\<close>, and \<open>undefined !== 0\<close> is true.
\<close>

definition cell_occupied :: "matrix \<Rightarrow> int \<Rightarrow> int \<Rightarrow> bool" where
  "cell_occupied board r c =
     (case js_get board r of
        None \<Rightarrow> True
      | Some row \<Rightarrow> (case js_get row c of None \<Rightarrow> True | Some v \<Rightarrow> v \<noteq> 0))"

text \<open>The two nested loops of \<open>collide\<close> return true at the first cell that hits.\<close>

definition collide :: "matrix \<Rightarrow> matrix \<Rightarrow> int \<Rightarrow> int \<Rightarrow> bool" where
  "collide board piece ox oy =
     list_ex (\<lambda>y.
       list_ex (\<lambda>x. piece ! y ! x \<noteq> 0 \<and> cell_occupied board (int y + oy) (int x + ox))
         [0..<length (piece ! y)])
       [0..<length piece]"

text \<open>
  \<open>board[r][c] = value\<close>: a missing row throws; a column outside the row's cells makes
  JavaScript grow the row (or add a property for a negative index).
\<close>

definition write_cell :: "matrix \<Rightarrow> int \<Rightarrow> int \<Rightarrow> int \<Rightarrow> fault + matrix" where
  "write_cell board r c v =
     (case js_get board r of
        None \<Rightarrow> Inl TypeError
      | Some row \<Rightarrow>
          (if 0 \<le> c \<and> c < int (length row)
           then Inr (board[nat r := row[nat c := v]])
           else Inl OutsideGrid))"

text \<open>\<open>row.forEach((value, x) => ...)\<close> for the row \<open>y\<close> of the piece, written to board row \<open>r\<close>.\<close>

fun merge_cells :: "matrix \<Rightarrow> int list \<Rightarrow> int \<Rightarrow> int \<Rightarrow> nat list \<Rightarrow> fault + matrix" where
  "merge_cells board row r ox [] = Inr board"
| "merge_cells board row r ox (x # xs) =
     (if row ! x \<noteq> 0 then
        (case write_cell board r (int x + ox) (row ! x) of
           Inl e \<Rightarrow> Inl e
         | Inr b \<Rightarrow> merge_cells b row r ox xs)
      else merge_cells board row r ox xs)"

text \<open>\<open>piece.forEach((row, y) => ...)\<close>.\<close>

fun merge_rows :: "matrix \<Rightarrow> matrix \<Rightarrow> int \<Rightarrow> int \<Rightarrow> nat list \<Rightarrow> fault + matrix" where
  "merge_rows board piece ox oy [] = Inr board"
| "merge_rows board piece ox oy (y # ys) =
     (case merge_cells board (piece ! y) (int y + oy) ox [0..<length (piece ! y)] of
        Inl e \<Rightarrow> Inl e
      | Inr b \<Rightarrow> merge_rows b piece ox oy ys)"

definition merge :: "matrix \<Rightarrow> matrix \<Rightarrow> int \<Rightarrow> int \<Rightarrow> fault + matrix" where
  "merge board piece ox oy = merge_rows board piece ox oy [0..<length piece]"

text \<open>A cell index that lies on the board.\<close>

definition on_board :: "matrix \<Rightarrow> int \<Rightarrow> int \<Rightarrow> bool" where
  "on_board board r c =
     (0 \<le> r \<and> r < int (length board) \<and> 0 \<le> c \<and> c < int (length (board ! nat r)))"

subsection \<open>The game object\<close>

text \<open>
  The fields of \<open>TetrisGame\<close> that the simulation uses. \<open>piece\<close> and \<open>nextPiece\<close> are
  \<open>null\<close> (\<open>None\<close>) until \<open>reset\<close>. A callback field is \<open>True\<close> when a function is
  registered; calling a registered callback is recorded as an event, in call order.
\<close>

record game =
  isRemote :: bool
  board :: matrix
  score :: int
  gameOver :: bool
  piece :: "matrix option"
  nextPiece :: "matrix option"
  pos_x :: int
  pos_y :: int
  dropCounter :: real
  dropInterval :: real
  lastTime :: real
  onGameOver :: bool
  onScore :: bool
  onBoardUpdate :: bool
  onNextPiece :: bool
  onLinesCleared :: bool

datatype event =
    GameOverEvent
  | ScoreEvent int
  | BoardUpdateEvent matrix
  | NextPieceEvent matrix
  | LinesClearedEvent int

text \<open>
  \<open>constructor(canvas, isRemote = false)\<close>. The canvas only serves drawing. The class
  has no third parameter: a call \<open>new TetrisGame(canvas, isRemote, seed)\<close> drops \<open>seed\<close>.
\<close>

definition constructor :: "bool \<Rightarrow> game" where
  "constructor remote =
     \<lparr> isRemote = remote, board = createBoard, score = 0, gameOver = False,
       piece = None, nextPiece = None, pos_x = 0, pos_y = 0,
       dropCounter = 0, dropInterval = 1000, lastTime = 0,
       onGameOver = False, onScore = False, onBoardUpdate = False,
       onNextPiece = False, onLinesCleared = False \<rparr>"

text \<open>
  \<open>randomPiece\<close>: \<open>v\<close> is the number that \<open>Math.random() * PIECES.length\<close> evaluates
  to in this call. JavaScript computes the product in double precision; the model takes
  its value as given and computes nothing inexact with it: \<open>Math.floor\<close> of a double is
  its floor. \<open>Math.random()\<close> returns a double not below 0 and below 1; the largest such
  double is \<open>1 - 1/2^53\<close>, and its product with 7 rounds to \<open>7 - 1/2^50\<close>, so in a run
  \<open>0 \<le> v\<close> and \<open>v < 7\<close>. The copy \<open>matrix.map(row => [...row])\<close> has the same cells.
\<close>

definition randomPiece :: "real \<Rightarrow> fault + matrix" where
  "randomPiece v =
     (case js_get PIECES \<lfloor>v\<rfloor> of
        None \<Rightarrow> Inl TypeError
      | Some m \<Rightarrow> Inr (map (\<lambda>row. row) m))"


subsection \<open>\<open>arenaSweep\<close>\<close>

text \<open>
  The inner loop of \<open>arenaSweep\<close> leaves a row alone as soon as it finds a cell equal
  to 0; a row without such a cell is removed.
\<close>

definition row_full :: "int list \<Rightarrow> bool" where
  "row_full row = list_all (\<lambda>v. v \<noteq> 0) row"

text \<open>
  The labelled loop \<open>for (let y = this.board.length - 1; y > 0; --y)\<close>. A full row is
  cut out (\<open>splice(y, 1)\<close>), filled with 0 and put in front (\<open>unshift\<close>); \<open>++y\<close> followed
  by the loop's \<open>--y\<close> keeps \<open>y\<close>. The loop need not end (a board of empty rows keeps
  it running), so the result is an option: \<open>None\<close> when it never returns.
\<close>

partial_function (option) sweep_loop ::
  "matrix \<Rightarrow> int \<Rightarrow> int \<Rightarrow> (fault + matrix \<times> int) option" where
  "sweep_loop brd y rowCount =
     (if y > 0 then
        (case js_get brd y of
           None \<Rightarrow> Some (Inl TypeError)
         | Some r \<Rightarrow>
             if row_full r then
               sweep_loop
                 (replicate (length r) 0 # (take (nat y) brd @ drop (Suc (nat y)) brd))
                 y (rowCount + 1)
             else sweep_loop brd (y - 1) rowCount)
      else Some (Inr (brd, rowCount)))"

declare sweep_loop.simps [code]

definition arenaSweep :: "game \<Rightarrow> fault + game \<times> event list" where
  "arenaSweep g =
     (case sweep_loop (board g) (int (length (board g)) - 1) 0 of
        None \<Rightarrow> Inl NoReturn
      | Some (Inl e) \<Rightarrow> Inl e
      | Some (Inr (b, rowCount)) \<Rightarrow>
          (let g1 = g\<lparr>board := b\<rparr> in
           if rowCount > 0 then
             (let oldScore = score g1;
                  g2 = g1\<lparr>score := score g1 + rowCount * 10\<rparr>;
                  attackLines = score g2 div 100 - oldScore div 100
              in Inr (g2,
                   (if onScore g2 then [ScoreEvent (score g2)] else []) @
                   (if attackLines > 0 \<and> onLinesCleared g2
                    then [LinesClearedEvent attackLines] else [])))
           else Inr (g1, [])))"

subsection \<open>\<open>drop\<close>\<close>

text \<open>
  The method \<open>drop\<close> is \<open>drop_piece\<close> here (\<open>drop\<close> is a list function). \<open>v\<close> is the
  value of \<open>Math.random() * PIECES.length\<close> in the call of \<open>randomPiece\<close> that is made
  when the piece locks. The events are in the order of the calls of the callbacks.
\<close>

definition drop_piece :: "game \<Rightarrow> real \<Rightarrow> fault + game \<times> event list" where
  "drop_piece g v =
     (case piece g of
        None \<Rightarrow> Inl TypeError
      | Some p \<Rightarrow>
          (let g1 = g\<lparr>pos_y := pos_y g + 1\<rparr> in
           if collide (board g1) p (pos_x g1) (pos_y g1) then
             (let g2 = g1\<lparr>pos_y := pos_y g1 - 1\<rparr> in
              case merge (board g2) p (pos_x g2) (pos_y g2) of
                Inl e \<Rightarrow> Inl e
              | Inr b \<Rightarrow>
             (case arenaSweep (g2\<lparr>board := b\<rparr>) of
                Inl e \<Rightarrow> Inl e
              | Inr (g3, sweep_events) \<Rightarrow>
             (case randomPiece v of
                Inl e \<Rightarrow> Inl e
              | Inr n \<Rightarrow>
                  (let g4 = g3\<lparr>piece := nextPiece g3, nextPiece := Some n\<rparr>;
                       next_events = (if onNextPiece g4 then [NextPieceEvent n] else []);
                       g5 = g4\<lparr>pos_x := 3, pos_y := 0\<rparr>
                   in case piece g5 of
                        None \<Rightarrow> Inl TypeError
                      | Some q \<Rightarrow>
                          (let over = collide (board g5) q (pos_x g5) (pos_y g5);
                               g6 = (if over then g5\<lparr>gameOver := True\<rparr> else g5);
                               over_events =
                                 (if over \<and> onGameOver g6 then [GameOverEvent] else []);
                               board_events =
                                 (if onBoardUpdate g6 then [BoardUpdateEvent (board g6)]
                                  else [])
                           in Inr (g6\<lparr>dropCounter := 0\<rparr>,
                                   sweep_events @ next_events @ over_events @ board_events))))))
           else Inr (g1\<lparr>dropCounter := 0\<rparr>, [])))"

subsection \<open>\<open>rotate\<close>\<close>

text \<open>
  How the wall-kick loop of \<open>rotate\<close> ends: the \<open>while\<close> condition fails with
  \<open>pos.x\<close> at some column (\<open>Placed\<close>), or the \<open>if\<close> inside gives up (\<open>Reverted\<close>).
\<close>

datatype kick = Placed int | Reverted

text \<open>The method \<open>rotate\<close> is \<open>rotate_piece\<close> here (\<open>rotate\<close> is a list function).\<close>

function rotate_loop :: "matrix \<Rightarrow> matrix \<Rightarrow> int \<Rightarrow> int \<Rightarrow> int \<Rightarrow> kick" where
  "rotate_loop brd p px py offset =
     (if collide brd p px py then
        (let px' = px + offset;
             offset' = - (offset + (if offset > 0 then 1 else - 1))
         in if offset' > int (length (p ! 0)) then Reverted
            else rotate_loop brd p px' py offset')
      else Placed px)"
  by pat_completeness auto
termination
  by (relation "measure (\<lambda>(brd, p, px, py, offset).
        (if offset > 0 then 2 * nat (int (length (p ! 0)) + 2 - offset) + 2
         else 2 * nat (int (length (p ! 0)) + 3 + offset)))")
     (auto simp: Let_def)

definition rotate_piece :: "game \<Rightarrow> int \<Rightarrow> fault + game" where
  "rotate_piece g dir =
     (case piece g of
        None \<Rightarrow> Inl TypeError
      | Some p \<Rightarrow>
     (case rotateMatrix p dir of
        Inl e \<Rightarrow> Inl e
      | Inr p' \<Rightarrow>
     (case rotate_loop (board g) p' (pos_x g) (pos_y g) 1 of
        Placed px \<Rightarrow> Inr (g\<lparr>piece := Some p', pos_x := px\<rparr>)
      | Reverted \<Rightarrow>
          (case rotateMatrix p' (- dir) of
             Inl e \<Rightarrow> Inl e
           | Inr p'' \<Rightarrow> Inr (g\<lparr>piece := Some p'', pos_x := pos_x g\<rparr>)))))"

subsection \<open>\<open>move\<close>, \<open>hardDrop\<close> and \<open>addGarbage\<close>\<close>


text \<open>
  The loop of \<open>hardDrop\<close>: while the position one row lower is free the piece goes down
  a row and the score goes up by 2. A piece without a nonzero cell never collides, so
  the result is an option: \<open>None\<close> when the loop never ends.
\<close>

partial_function (option) hardDrop_loop :: "game \<Rightarrow> matrix \<Rightarrow> game option" where
  "hardDrop_loop g p =
     (if \<not> collide (board g) p (pos_x g) (pos_y g + 1)
      then hardDrop_loop (g\<lparr>pos_y := pos_y g + 1, score := score g + 2\<rparr>) p
      else Some g)"

declare hardDrop_loop.simps [code]

text \<open>\<open>hardDrop\<close>: the loop, then one call of \<open>drop\<close>, which locks the piece.\<close>

definition hardDrop :: "game \<Rightarrow> real \<Rightarrow> fault + game \<times> event list" where
  "hardDrop g v =
     (case piece g of
        None \<Rightarrow> Inl TypeError
      | Some p \<Rightarrow>
          (case hardDrop_loop g p of
             None \<Rightarrow> Inl NoReturn
           | Some g1 \<Rightarrow> drop_piece g1 v))"

text \<open>
  \<open>addGarbage(lines)\<close>: the loop makes one pass for each line, and the list holds, for
  each pass in order, the value of \<open>Math.random() * CONSTANTS.COLS\<close> in that pass. A pass
  makes a row of ten cells 8, writes 0 at the hole, removes the top row of the board
  (\<open>shift\<close>) and appends the new row (\<open>push\<close>). The piece and its position are not
  touched. The final \<open>draw\<close> only serves the display.
\<close>

fun addGarbage :: "game \<Rightarrow> real list \<Rightarrow> fault + game" where
  "addGarbage g [] = Inr g"
| "addGarbage g (v # vs) =
     (let hole = \<lfloor>v\<rfloor> in
      if 0 \<le> hole \<and> hole < int COLS then
        addGarbage (g\<lparr>board := tl (board g) @ [(replicate COLS 8)[nat hole := 0]]\<rparr>) vs
      else Inl OutsideGrid)"

subsection \<open>The seeded engine\<close>





text \<open>The call of \<open>drop\<close> locks the piece: the piece collides one row lower.\<close>

definition locks :: "game \<Rightarrow> bool" where
  "locks g =
     (case piece g of
        None \<Rightarrow> False
      | Some p \<Rightarrow> collide (board g) p (pos_x g) (pos_y g + 1))"





section \<open>Battle rooms (socketMulti.js)\<close>

text \<open>
  A room's \<open>players\<close> object maps socket ids to player objects. \<open>Object.entries\<close>,
  \<open>Object.keys\<close> and \<open>Object.values\<close> list it in insertion order (socket ids are not
  array indices), so it is an association list in roster order; a JavaScript object
  has each key once.
\<close>

type_synonym socket_id = string

datatype status = Waiting | Playing | Finished

record player =
  userId :: int
  username :: string
  p_score :: int
  alive :: bool
  p_rank :: "int option"
  p_board :: "matrix option"

record room =
  room_id :: string
  hostSocketId :: socket_id
  maxPlayers :: int
  players :: "(socket_id \<times> player) list"
  status :: status
  alivePlayers :: int
  seed :: "int option"

text \<open>What a handler sends, in order.\<close>

datatype room_error = GameAlreadyRunning | NeedTwoPlayers

datatype multi_emit =
    RoomError room_error
  | MultiGameReady int "(socket_id \<times> player) list"
  | GameStartedMessage
  | PlayerEliminated socket_id string int string
  | MultiGameFinished "(socket_id \<times> string \<times> int option \<times> int) list"
  | RankingMessage "(int option \<times> string) list"
  | RelayAction socket_id string
  | ReceiveGarbage socket_id socket_id string int
  | AttackEvent string string int

text \<open>\<open>room.players[sid]\<close> and an assignment to fields of that player object.\<close>

definition get_player :: "room \<Rightarrow> socket_id \<Rightarrow> player option" where
  "get_player r sid = map_of (players r) sid"

definition update_player :: "socket_id \<Rightarrow> (player \<Rightarrow> player) \<Rightarrow> room \<Rightarrow> room" where
  "update_player sid f r =
     r\<lparr>players := map (\<lambda>(k, p). if k = sid then (k, f p) else (k, p)) (players r)\<rparr>"

subsection \<open>\<open>selectAttackTarget\<close>\<close>

text \<open>
  \<open>selectAttackTarget\<close> computes with its draws: it adds scores, multiplies a draw and
  subtracts repeatedly. JavaScript numbers are doubles and each operation rounds its
  result. The model does not fix the rounding: the three operations are a parameter,
  and what is shown of \<open>selectAttackTarget\<close> is shown for every choice of them, hence
  also for the operations of the doubles. \<open>exact_ops\<close> are the operations without
  rounding; where the doubles do not round (on small integers, halves, quarters) they
  are the operations of the doubles.
\<close>

record num_ops =
  n_add :: "real \<Rightarrow> real \<Rightarrow> real"
  n_sub :: "real \<Rightarrow> real \<Rightarrow> real"
  n_mul :: "real \<Rightarrow> real \<Rightarrow> real"

definition exact_ops :: num_ops where
  "exact_ops = \<lparr>n_add = (\<lambda>x y. x + y), n_sub = (\<lambda>x y. x - y), n_mul = (\<lambda>x y. x * y)\<rparr>"

text \<open>
  The literal \<open>0.7\<close> is the double nearest to 7/10, which is 3152519739159347 / 2^52 and
  lies below 7/10. A comparison of two doubles is exact.
\<close>

definition double_0_7 :: real where
  "double_0_7 = 3152519739159347 / 4503599627370496"

text \<open>
  The loop of the weighted branch: \<open>rand -= (p.score + 1); if (rand <= 0) return id\<close>.
  \<open>None\<close> means that the loop went through all targets without returning.
\<close>

fun weighted_loop :: "num_ops \<Rightarrow> (socket_id \<times> player) list \<Rightarrow> real \<Rightarrow> socket_id option" where
  "weighted_loop ar [] rand = None"
| "weighted_loop ar ((sid, p) # ts) rand =
     (let rand' = n_sub ar rand (n_add ar (real_of_int (p_score p)) 1)
      in if rand' \<le> 0 then Some sid else weighted_loop ar ts rand')"

text \<open>
  \<open>u1\<close> is the draw compared with \<open>0.7\<close>, \<open>u2\<close> the draw of the branch taken, \<open>ar\<close> the
  arithmetic. \<open>sum + p.score + 1\<close> adds the score first and then 1. The result
  \<open>Inr None\<close> is the \<open>null\<close> of the source.
\<close>

definition selectAttackTarget ::
  "num_ops \<Rightarrow> room \<Rightarrow> socket_id \<Rightarrow> real \<Rightarrow> real \<Rightarrow> fault + socket_id option" where
  "selectAttackTarget ar r attackerSocketId u1 u2 =
     (let targets = filter (\<lambda>(sid, p). sid \<noteq> attackerSocketId \<and> alive p) (players r)
      in if length targets = 0 then Inr None
         else if u1 < double_0_7 then
           (case js_get targets \<lfloor>n_mul ar u2 (real (length targets))\<rfloor> of
              None \<Rightarrow> Inl TypeError
            | Some t \<Rightarrow> Inr (Some (fst t)))
         else
           (let totalScore =
                  foldl (\<lambda>sum t. n_add ar (n_add ar sum (real_of_int (p_score (snd t)))) 1)
                    0 targets;
                rand = n_mul ar u2 totalScore
            in case weighted_loop ar targets rand of
                 Some sid \<Rightarrow> Inr (Some sid)
               | None \<Rightarrow> Inr (Some (fst (targets ! (length targets - 1))))))"

subsection \<open>Start, elimination and the end check\<close>

text \<open>
  The body of \<open>start_multi_game\<close> for the room that the handler finds (the room that
  holds the sender as its host); \<open>v\<close> is the value of \<open>Math.random() * 2147483647\<close>.
\<close>

definition start_multi_game :: "room \<Rightarrow> real \<Rightarrow> room \<times> multi_emit list" where
  "start_multi_game r v =
     (if status r \<noteq> Waiting then (r, [RoomError GameAlreadyRunning])
      else
        (let playerCount = int (length (players r)) in
         if playerCount < 2 then (r, [RoomError NeedTwoPlayers])
         else
           (let new_seed = \<lfloor>v\<rfloor>;
                r1 = r\<lparr>status := Playing, alivePlayers := playerCount,
                        seed := Some new_seed\<rparr>;
                r2 = r1\<lparr>players :=
                        map (\<lambda>(k, p). (k, p\<lparr>p_score := 0, alive := True,
                                              p_rank := None, p_board := None\<rparr>))
                          (players r1)\<rparr>
            in (r2, [MultiGameReady new_seed (players r2), GameStartedMessage]))))"

text \<open>The loop of \<open>checkGameEnd\<close> that gives rank 1 to the first player still alive.\<close>

fun crown_first_alive :: "(socket_id \<times> player) list \<Rightarrow> (socket_id \<times> player) list" where
  "crown_first_alive [] = []"
| "crown_first_alive ((sid, p) # ps) =
     (if alive p then (sid, p\<lparr>alive := False, p_rank := Some 1\<rparr>) # ps
      else (sid, p) # crown_first_alive ps)"

text \<open>
  The comparator \<open>a.rank - b.rank\<close> reads \<open>null\<close> as 0; \<open>Array.prototype.sort\<close> is
  stable.
\<close>

definition rank_key :: "int option \<Rightarrow> int" where
  "rank_key k = (case k of None \<Rightarrow> 0 | Some n \<Rightarrow> n)"

definition checkGameEnd :: "room \<Rightarrow> room \<times> multi_emit list" where
  "checkGameEnd r =
     (if alivePlayers r \<le> 1 \<and> status r = Playing then
        (let r1 = r\<lparr>status := Finished\<rparr>;
             r2 = r1\<lparr>players := crown_first_alive (players r1)\<rparr>;
             rankings =
               sort_key (\<lambda>(sid, name, k, sc). rank_key k)
                 (map (\<lambda>(sid, p). (sid, username p, p_rank p, p_score p)) (players r2))
         in (r2, [MultiGameFinished rankings,
                  RankingMessage (map (\<lambda>(sid, name, k, sc). (k, name)) rankings)]))
      else (r, []))"

text \<open>
  The \<open>game_over\<close> branch of \<open>multi_game_action\<close>, for the room that holds the sender.
\<close>

definition game_over_report :: "room \<Rightarrow> socket_id \<Rightarrow> room \<times> multi_emit list" where
  "game_over_report r sid =
     (case get_player r sid of
        None \<Rightarrow> (r, [])
      | Some pl \<Rightarrow>
          if alive pl then
            (let r1 = update_player sid
                        (\<lambda>p. p\<lparr>alive := False, p_rank := Some (alivePlayers r)\<rparr>) r;
                 r2 = r1\<lparr>alivePlayers := alivePlayers r1 - 1\<rparr>;
                 (r3, end_emits) = checkGameEnd r2
             in (r3, PlayerEliminated sid (username pl) (alivePlayers r) ''game_over''
                       # end_emits))
          else (r, []))"

text \<open>
  The \<open>score\<close> branch: the reported value is stored as the player's score, whatever it
  is, and relayed to the others.
\<close>

definition score_report :: "room \<Rightarrow> socket_id \<Rightarrow> int \<Rightarrow> room \<times> multi_emit list" where
  "score_report r sid val =
     (case get_player r sid of
        None \<Rightarrow> (r, [])
      | Some pl \<Rightarrow> (update_player sid (\<lambda>p. p\<lparr>p_score := val\<rparr>) r, [RelayAction sid ''score'']))"

text \<open>
  The \<open>garbage\<close> branch: \<open>if (targetId)\<close> also skips the empty string.
\<close>

definition garbage_report ::
  "num_ops \<Rightarrow> room \<Rightarrow> socket_id \<Rightarrow> int \<Rightarrow> real \<Rightarrow> real \<Rightarrow> fault + room \<times> multi_emit list" where
  "garbage_report ar r sid lines u1 u2 =
     (case get_player r sid of
        None \<Rightarrow> Inr (r, [])
      | Some pl \<Rightarrow>
     (case selectAttackTarget ar r sid u1 u2 of
        Inl e \<Rightarrow> Inl e
      | Inr None \<Rightarrow> Inr (r, [])
      | Inr (Some targetId) \<Rightarrow>
          if targetId = [] then Inr (r, [])
          else
            (case get_player r targetId of
               None \<Rightarrow> Inl TypeError
             | Some tp \<Rightarrow>
                 Inr (r, [ReceiveGarbage targetId sid (username pl) lines,
                          AttackEvent (username pl) (username tp) lines]))))"

text \<open>A match: the reports of \<open>game_over\<close> that reach the room, one after the other.\<close>

fun game_over_reports :: "room \<Rightarrow> socket_id list \<Rightarrow> room" where
  "game_over_reports r [] = r"
| "game_over_reports r (sid # sids) = game_over_reports (fst (game_over_report r sid)) sids"

section \<open>Duel rooms (socket.js)\<close>

text \<open>
  A duel room holds \<open>players\<close> (socket id to \<open>{userId, username}\<close>), a status and,
  once a game has ended, \<open>scores\<close>: the wins of each socket id in this session. The
  handlers only read \<open>room.scores[id]\<close>, so a missing \<open>scores\<close> object and an empty
  one are the same empty map.
\<close>

record duel_player =
  d_userId :: int
  d_username :: string

record duel_room =
  d_players :: "(socket_id \<times> duel_player) list"
  d_status :: status
  d_scores :: "socket_id \<rightharpoonup> int"

text \<open>\<open>RoomManager.rooms\<close>: a \<open>Map\<close> from room id to room, iterated in insertion order.\<close>

type_synonym room_store = "(string \<times> duel_room) list"

text \<open>The payload \<open>{type, value}\<close> of a \<open>game_action\<close> message.\<close>

datatype action_value = NoValue | NumberValue int | BoardValue matrix

record action =
  a_type :: string
  a_value :: action_value

datatype duel_emit =
    RelayToOthers string socket_id action
  | DbAddWin int
  | WinnerMessage string string int string int
  | GameReset string
  | GameReady string int
  | ResetMessage string

fun findPlayerRoom :: "room_store \<Rightarrow> socket_id \<Rightarrow> (string \<times> duel_room) option" where
  "findPlayerRoom [] sid = None"
| "findPlayerRoom ((roomId, r) # rs) sid =
     (if map_of (d_players r) sid \<noteq> None then Some (roomId, r) else findPlayerRoom rs sid)"

text \<open>The handlers change the room object that the store holds under \<open>roomId\<close>.\<close>

definition store_room :: "string \<Rightarrow> duel_room \<Rightarrow> room_store \<Rightarrow> room_store" where
  "store_room roomId r rs = map (\<lambda>(k, old). if k = roomId then (k, r) else (k, old)) rs"

text \<open>\<open>room.scores[id] || 0\<close>.\<close>

definition wins :: "duel_room \<Rightarrow> socket_id \<Rightarrow> int" where
  "wins r sid = (case d_scores r sid of None \<Rightarrow> 0 | Some n \<Rightarrow> n)"

text \<open>
  The \<open>game_action\<close> handler. The database update is tried and a failure is caught,
  so the handler goes on either way. \<open>if (winnerId)\<close> is false for \<open>undefined\<close> and
  for the empty string. The text of the winner message is kept as its parts: the
  winner's name, then name and wins of the first and of the second roster member
  (reading the name of a missing second member throws).
\<close>

definition game_action ::
  "room_store \<Rightarrow> socket_id \<Rightarrow> action \<Rightarrow> fault + room_store \<times> duel_emit list" where
  "game_action rs sid data =
     (case findPlayerRoom rs sid of
        None \<Rightarrow> Inr (rs, [])
      | Some (roomId, r) \<Rightarrow>
          (let relay = [RelayToOthers roomId sid data] in
           if a_type data = ''game_over'' then
             (case find (\<lambda>k. k \<noteq> sid) (map fst (d_players r)) of
                None \<Rightarrow> Inr (rs, relay)
              | Some winnerId \<Rightarrow>
                  if winnerId = [] then Inr (rs, relay)
                  else
                    (case map_of (d_players r) winnerId of
                       None \<Rightarrow> Inl TypeError
                     | Some winnerUser \<Rightarrow>
                         (let r' = r\<lparr>d_scores := (d_scores r)(winnerId \<mapsto> wins r winnerId + 1)\<rparr>
                          in case d_players r' of
                               (p1Id, p1) # (p2Id, p2) # rest \<Rightarrow>
                                 Inr (store_room roomId r' rs,
                                      relay @
                                      [DbAddWin (d_userId winnerUser),
                                       WinnerMessage (d_username winnerUser)
                                         (d_username p1) (wins r' p1Id)
                                         (d_username p2) (wins r' p2Id)])
                             | _ \<Rightarrow> Inl TypeError)))
           else Inr (rs, relay)))"

text \<open>
  The \<open>game_reset\<close> handler; \<open>v\<close> is the value of \<open>Math.random() * 2147483647\<close> in this
  call.
\<close>

definition game_reset :: "room_store \<Rightarrow> socket_id \<Rightarrow> real \<Rightarrow> room_store \<times> duel_emit list" where
  "game_reset rs sid v =
     (case findPlayerRoom rs sid of
        None \<Rightarrow> (rs, [])
      | Some (roomId, r) \<Rightarrow>
          (let r' = r\<lparr>d_status := Playing\<rparr>;
               new_seed = \<lfloor>v\<rfloor>
           in (store_room roomId r' rs,
               [GameReset roomId, GameReady roomId new_seed, ResetMessage roomId])))"

section \<open>Observations used by the properties\<close>





text \<open>A board whose only occupied cells are the ten cells of row 0.\<close>

definition top_row_full :: matrix where
  "top_row_full = replicate COLS 1 # replicate (ROWS - 1) (replicate COLS 0)"

text \<open>
  A game in which the falling O piece, at the spawn position, completes row 0 and no
  other row: row 0 lacks columns 3 and 4, row 1 lacks columns 3, 4 and 9, and rows 2 to
  19 are garbage rows with their hole in column 9.
\<close>

definition board_under_top_row :: matrix where
  "board_under_top_row =
     [[8, 8, 8, 0, 0, 8, 8, 8, 8, 8],
      [8, 8, 8, 0, 0, 8, 8, 8, 8, 0]] @
     replicate (ROWS - 2) [8, 8, 8, 8, 8, 8, 8, 8, 8, 0]"

definition game_completing_top_row :: game where
  "game_completing_top_row =
     (constructor False)\<lparr>board := board_under_top_row,
        piece := Some (PIECES ! 1), nextPiece := Some (PIECES ! 0), pos_x := 3, pos_y := 0\<rparr>"

text \<open>The rows that \<open>fill(0)\<close> makes of removed rows.\<close>

definition zero_rows :: "matrix \<Rightarrow> matrix" where
  "zero_rows rows = map (\<lambda>r. replicate (length r) 0) rows"

text \<open>
  A board cell \<open>(i, j)\<close> lies under a nonzero cell of piece \<open>p\<close> placed at column
  \<open>ox\<close> and row \<open>oy\<close>.
\<close>

definition covered :: "matrix \<Rightarrow> int \<Rightarrow> int \<Rightarrow> nat \<Rightarrow> nat \<Rightarrow> bool" where
  "covered p ox oy i j =
     (\<exists>y<length p. \<exists>x<length (p ! y). p ! y ! x \<noteq> 0 \<and> int y + oy = int i \<and> int x + ox = int j)"

text \<open>
  Every nonzero cell of piece \<open>p\<close>, placed at column \<open>ox\<close> and row \<open>oy\<close>, lies on the
  board (on a free or on an occupied cell).
\<close>

definition piece_on_board :: "matrix \<Rightarrow> matrix \<Rightarrow> int \<Rightarrow> int \<Rightarrow> bool" where
  "piece_on_board brd p ox oy =
     list_all (\<lambda>y.
       list_all (\<lambda>x. p ! y ! x \<noteq> 0 \<longrightarrow> on_board brd (int y + oy) (int x + ox))
         [0..<length (p ! y)])
       [0..<length p]"

text \<open>
  A piece resting on the floor of an empty board (the T piece at column 3, row 18), and
  the same game after one garbage line with its hole in column 0 has arrived: the board
  has moved up by a row under the piece, which now overlaps the garbage row.
\<close>

definition game_on_floor :: game where
  "game_on_floor =
     (constructor False)\<lparr>piece := Some (PIECES ! 0), nextPiece := Some (PIECES ! 1),
                            pos_x := 3, pos_y := 18\<rparr>"

definition game_after_garbage :: game where
  "game_after_garbage =
     game_on_floor\<lparr>board := replicate (ROWS - 1) (replicate COLS 0) @
                               [[0, 8, 8, 8, 8, 8, 8, 8, 8, 8]]\<rparr>"

text \<open>
  What a sweep makes of a board without empty rows: when a row below row 0 is full, all
  full rows are removed and as many rows of zeros are put on top; the number of rows
  removed; and the callbacks of a sweep that removes \<open>k\<close> rows from a game with score
  \<open>old\<close>, in call order.
\<close>

definition swept :: "matrix \<Rightarrow> matrix" where
  "swept brd =
     (if \<exists>r\<in>set (tl brd). row_full r
      then zero_rows (filter row_full brd) @ filter (\<lambda>r. \<not> row_full r) brd
      else brd)"

definition cleared_rows :: "matrix \<Rightarrow> int" where
  "cleared_rows brd =
     (if \<exists>r\<in>set (tl brd). row_full r then int (length (filter row_full brd)) else 0)"

definition sweep_callbacks :: "bool \<Rightarrow> bool \<Rightarrow> int \<Rightarrow> int \<Rightarrow> event list" where
  "sweep_callbacks score_registered lines_registered old k =
     (if k > 0 then
        (if score_registered then [ScoreEvent (old + k * 10)] else []) @
        (if (old + k * 10) div 100 - old div 100 > 0 \<and> lines_registered
         then [LinesClearedEvent ((old + k * 10) div 100 - old div 100)] else [])
      else [])"

text \<open>
  A game with all callbacks registered and score 95, the O piece resting on the floor
  in columns 0 and 1, before and after a garbage line with its hole in column 0 has
  arrived. The piece overlaps the garbage row in column 1 and completes it.
\<close>

definition game_before_attack :: game where
  "game_before_attack =
     (constructor False)\<lparr>score := 95,
        piece := Some (PIECES ! 1), nextPiece := Some (PIECES ! 0), pos_x := 0, pos_y := 18,
        onGameOver := True, onScore := True, onBoardUpdate := True,
        onNextPiece := True, onLinesCleared := True\<rparr>"

definition game_under_attack :: game where
  "game_under_attack =
     game_before_attack\<lparr>board := replicate (ROWS - 1) (replicate COLS 0) @
                                    [[0, 8, 8, 8, 8, 8, 8, 8, 8, 8]]\<rparr>"

text \<open>
  A game in play: the bottom row is full, the score is 96 and the score and
  lines-cleared callbacks are registered.
\<close>

definition bottom_row_full :: matrix where
  "bottom_row_full = replicate (ROWS - 1) (replicate COLS 0) @ [replicate COLS 1]"

definition game_before_sweep :: game where
  "game_before_sweep =
     (constructor False)\<lparr>board := bottom_row_full, score := 96,
                            onScore := True, onLinesCleared := True\<rparr>"

text \<open>
  A game about to end: columns 3 to 5 are occupied from row 2 down, the T piece sits
  at the spawn position and cannot fall, the O piece is next, and all callbacks are
  registered.
\<close>

definition stacked_board :: matrix where
  "stacked_board =
     replicate 2 (replicate COLS 0) @ replicate (ROWS - 2) [0, 0, 0, 8, 8, 8, 0, 0, 0, 0]"

definition game_before_top_out :: game where
  "game_before_top_out =
     (constructor False)\<lparr>board := stacked_board,
        piece := Some (PIECES ! 0), nextPiece := Some (PIECES ! 1), pos_x := 3, pos_y := 0,
        onGameOver := True, onScore := True, onBoardUpdate := True,
        onNextPiece := True, onLinesCleared := True\<rparr>"

text \<open>A matrix with as many columns in every row as it has rows, as the pieces are.\<close>

definition square :: "matrix \<Rightarrow> bool" where
  "square m = (\<forall>row\<in>set m. length row = length m)"

text \<open>The same with the size named: \<open>n\<close> rows of \<open>n\<close> cells.\<close>

definition sq :: "nat \<Rightarrow> matrix \<Rightarrow> bool" where
  "sq n m = (length m = n \<and> (\<forall>i<n. length (m ! i) = n))"

text \<open>
  Two games for \<open>rotate\<close>: the upright I piece against the left wall of an empty
  board, and the upright I piece in a well one column wide (column 4 of rows 0 to 3,
  all other cells occupied).
\<close>

definition game_at_wall :: game where
  "game_at_wall =
     (constructor False)\<lparr>piece := Some (PIECES ! 4), nextPiece := Some (PIECES ! 1),
                            pos_x := - 1, pos_y := 0\<rparr>"

definition well_board :: matrix where
  "well_board =
     replicate 4 [8, 8, 8, 8, 0, 8, 8, 8, 8, 8] @ replicate (ROWS - 4) (replicate COLS 8)"

definition game_in_well :: game where
  "game_in_well =
     (constructor False)\<lparr>board := well_board,
        piece := Some (PIECES ! 4), nextPiece := Some (PIECES ! 1), pos_x := 3, pos_y := 0\<rparr>"

text \<open>The callback that an event is a call of.\<close>

fun event_name :: "event \<Rightarrow> string" where
  "event_name GameOverEvent = ''onGameOver''"
| "event_name (ScoreEvent n) = ''onScore''"
| "event_name (BoardUpdateEvent b) = ''onBoardUpdate''"
| "event_name (NextPieceEvent m) = ''onNextPiece''"
| "event_name (LinesClearedEvent n) = ''onLinesCleared''"

text \<open>The names of the callbacks that a call of \<open>drop\<close> makes, in call order.\<close>

definition drop_callbacks :: "game \<Rightarrow> real \<Rightarrow> fault + string list" where
  "drop_callbacks g u = map_sum id (\<lambda>(g', events). map event_name events) (drop_piece g u)"

text \<open>
  A store with one duel room in play: ann (socket \<open>sa\<close>) created it and bob (socket
  \<open>sb\<close>) joined; no wins yet. \<open>create_room\<close> gives the room the status \<open>waiting\<close> and
  \<open>join_room\<close> does not change it.
\<close>

definition duel_room_ab :: duel_room where
  "duel_room_ab =
     \<lparr>d_players = [(''sa'', \<lparr>d_userId = 1, d_username = ''ann''\<rparr>),
                   (''sb'', \<lparr>d_userId = 2, d_username = ''bob''\<rparr>)],
      d_status = Waiting, d_scores = Map.empty\<rparr>"

definition duel_store :: room_store where
  "duel_store = [(''r1'', duel_room_ab)]"

text \<open>
  The targets of an attack: the roster entries of living players other than the
  attacker, in roster order.
\<close>

definition candidates :: "room \<Rightarrow> socket_id \<Rightarrow> (socket_id \<times> player) list" where
  "candidates r attacker = [t \<leftarrow> players r. fst t \<noteq> attacker \<and> alive (snd t)]"

text \<open>
  The weight of an entry on the weighted branch, \<open>p.score + 1\<close>, and the total that
  \<open>reduce\<close> computes, both in the arithmetic \<open>ar\<close>.
\<close>

definition weight :: "num_ops \<Rightarrow> socket_id \<times> player \<Rightarrow> real" where
  "weight ar t = n_add ar (real_of_int (p_score (snd t))) 1"

definition total_weight :: "num_ops \<Rightarrow> (socket_id \<times> player) list \<Rightarrow> real" where
  "total_weight ar ts =
     foldl (\<lambda>sum t. n_add ar (n_add ar sum (real_of_int (p_score (snd t)))) 1) 0 ts"

text \<open>
  What is left of \<open>rand\<close> after the weights of the first \<open>k\<close> entries have been
  subtracted from it, one after the other.
\<close>

fun remainder :: "num_ops \<Rightarrow> (socket_id \<times> player) list \<Rightarrow> real \<Rightarrow> nat \<Rightarrow> real" where
  "remainder ar ts rand 0 = rand"
| "remainder ar ts rand (Suc k) = n_sub ar (remainder ar ts rand k) (weight ar (ts ! k))"

text \<open>
  Entry \<open>k\<close> is where the loop of the weighted branch stops: after subtracting the
  weights of entries \<open>0..k\<close> from \<open>rand\<close> the remainder is at most 0, and it was
  positive after each entry before \<open>k\<close>.
\<close>

definition stops_at :: "num_ops \<Rightarrow> (socket_id \<times> player) list \<Rightarrow> real \<Rightarrow> nat \<Rightarrow> bool" where
  "stops_at ar ts rand k =
     (k < length ts \<and> remainder ar ts rand (Suc k) \<le> 0 \<and>
      (\<forall>j<k. 0 < remainder ar ts rand (Suc j)))"

text \<open>The room of the three-player scenario, after the host has started the game.\<close>

definition new_player :: "int \<Rightarrow> string \<Rightarrow> player" where
  "new_player uid name =
     \<lparr>userId = uid, username = name, p_score = 0, alive = True, p_rank = None, p_board = None\<rparr>"

definition waiting_room_abc :: room where
  "waiting_room_abc =
     \<lparr>room_id = ''M1'', hostSocketId = ''sa'', maxPlayers = 5,
      players = [(''sa'', new_player 1 ''A''), (''sb'', new_player 2 ''B''),
                 (''sc'', new_player 3 ''C'')],
      status = Waiting, alivePlayers = 3, seed = None\<rparr>"

definition playing_room_abc :: room where
  "playing_room_abc = fst (start_multi_game waiting_room_abc (1 / 2))"

text \<open>The room in play after B has reported the score -1.\<close>

definition room_negative_score :: room where
  "room_negative_score = fst (score_report playing_room_abc ''sb'' (- 1))"

text \<open>The same room after B and then C have reported \<open>game_over\<close>.\<close>

definition finished_room_abc :: room where
  "finished_room_abc = game_over_reports playing_room_abc [''sb'', ''sc'']"

text \<open>
  A match: the host starts the game in room \<open>r0\<close> (\<open>u\<close> is the number for the seed), then the
  \<open>game_over\<close> reports of \<open>sids\<close> arrive in this order.
\<close>

definition match_state :: "room \<Rightarrow> real \<Rightarrow> socket_id list \<Rightarrow> room" where
  "match_state r0 u sids = game_over_reports (fst (start_multi_game r0 u)) sids"

text \<open>The ranks of the roster, in roster order.\<close>

definition ranks :: "room \<Rightarrow> int option list" where
  "ranks r = map (\<lambda>t. p_rank (snd t)) (players r)"

text \<open>
  What holds of a room during a match of \<open>M\<close> players: while it is in play the
  counter is the number of living players, at least 2, and the ranks of the eliminated
  players are the numbers above the counter up to \<open>M\<close>, each once; when it is finished
  nobody is alive and the ranks are \<open>1..M\<close>, each once.
\<close>

definition alive_count :: "(socket_id \<times> player) list \<Rightarrow> nat" where
  "alive_count ps = length (filter (\<lambda>t. alive (snd t)) ps)"

definition dead_ranks :: "(socket_id \<times> player) list \<Rightarrow> int option multiset" where
  "dead_ranks ps = mset (map (\<lambda>t. p_rank (snd t)) (filter (\<lambda>t. \<not> alive (snd t)) ps))"

definition match_inv :: "nat \<Rightarrow> room \<Rightarrow> bool" where
  "match_inv M r =
     (length (players r) = M \<and> distinct (map fst (players r)) \<and>
      (status r = Playing \<and> alivePlayers r = int (alive_count (players r)) \<and>
         2 \<le> alive_count (players r) \<and>
         dead_ranks (players r) = mset (map Some [alivePlayers r + 1..int M]) \<or>
       status r = Finished \<and> alive_count (players r) = 0 \<and>
         dead_ranks (players r) = mset (map Some [1..int M])))"

section \<open>Properties of the engine\<close>

subsection \<open>Rotation of the seven pieces\<close>

lemma rotateMatrix_sign: "rotateMatrix m dir = rotateMatrix m (if dir > 0 then 1 else - 1)"
  by (auto simp: rotateMatrix_def split: sum.splits)

lemma rotateMatrix_times_sign:
  "rotateMatrix_times n m dir = rotateMatrix_times n m (if dir > 0 then 1 else - 1)"
proof (induction n arbitrary: m)
  case 0
  show ?case by simp
next
  case (Suc n)
  have "rotateMatrix m dir = rotateMatrix m (if dir > 0 then 1 else - 1)"
    by (rule rotateMatrix_sign)
  with Suc show ?case by (simp split: sum.splits)
qed

lemma pieces_rotate_back:
  "list_all (\<lambda>p. rotateMatrix_times 4 p 1 = Inr p \<and> rotateMatrix_times 4 p (- 1) = Inr p) PIECES"
  by code_simp

text \<open>
  C7. For each of the seven matrices of \<open>PIECES\<close> and every direction (only its sign
  matters to \<open>_rotateMatrix\<close>), four calls of \<open>_rotateMatrix\<close> with that direction
  give the matrix back.
\<close>

theorem rotate_four_times_identity:
  "\<forall>p \<in> set PIECES. \<forall>dir. rotateMatrix_times 4 p dir = Inr p"
proof (intro ballI allI)
  fix p dir
  assume "p \<in> set PIECES"
  with pieces_rotate_back
  have *: "rotateMatrix_times 4 p 1 = Inr p \<and> rotateMatrix_times 4 p (- 1) = Inr p"
    by (simp add: list_all_iff)
  show "rotateMatrix_times 4 p dir = Inr p"
    using * rotateMatrix_times_sign [of 4 p dir] by (cases "dir > 0") simp_all
qed

theorem rotate_four_times_identity_witness:
  "PIECES ! 4 \<in> set PIECES \<and> rotateMatrix_times 4 (PIECES ! 4) 1 = Inr (PIECES ! 4)"
proof -
  have "PIECES ! 4 \<in> set PIECES" by (simp add: PIECES_def)
  then show ?thesis using rotate_four_times_identity by blast
qed

subsection \<open>Piece generation and the seed\<close>














lemma randomPiece_ok:
  assumes "0 \<le> v" "v < 7"
  shows "randomPiece v = Inr (PIECES ! nat \<lfloor>v\<rfloor>)"
proof -
  have "0 \<le> \<lfloor>v\<rfloor>" using assms by simp
  moreover have "\<lfloor>v\<rfloor> < 7" using assms by (simp add: floor_less_iff)
  ultimately show ?thesis
    by (simp add: randomPiece_def js_get_def PIECES_def)
qed




subsection \<open>The sweep and row 0\<close>

text \<open>
  C3. On a board whose row 0 is full and whose other rows are empty, \<open>arenaSweep\<close>
  removes nothing: the loop stops at \<open>y > 0\<close>, so row 0 is never examined. The board
  and the score stay as they were and no callback is called. The same happens in play:
  when the O piece locks at the spawn position and completes row 0 only, the row is
  still full after \<open>drop\<close> and the score is still 0.
\<close>

theorem sweep_keeps_full_top_row:
  "row_full (top_row_full ! 0) \<and>
   map_sum id (\<lambda>(g, events). (board g, score g, events))
     (arenaSweep ((constructor False)\<lparr>board := top_row_full\<rparr>)) = Inr (top_row_full, 0, []) \<and>
   map_sum id (\<lambda>(g, events). (board g ! 0, row_full (board g ! 0), score g))
     (drop_piece game_completing_top_row 0) = Inr ([8, 8, 8, 2, 2, 8, 8, 8, 8, 8], True, 0)"
  by code_simp

subsection \<open>Collision and merging\<close>

lemma collide_iff:
  "collide brd p ox oy \<longleftrightarrow>
   (\<exists>y<length p. \<exists>x<length (p ! y). p ! y ! x \<noteq> 0 \<and> cell_occupied brd (int y + oy) (int x + ox))"
  unfolding collide_def list_ex_iff by (simp add: Bex_def)

lemma cell_occupied_off_board: "\<not> on_board brd r c \<Longrightarrow> cell_occupied brd r c"
  by (auto simp: on_board_def cell_occupied_def js_get_def)

lemma write_cell_on_board:
  "on_board brd r c \<Longrightarrow> write_cell brd r c v = Inr (brd[nat r := (brd ! nat r)[nat c := v]])"
  by (simp add: on_board_def write_cell_def js_get_def)

lemma on_board_shape:
  "map length b = map length brd \<Longrightarrow> on_board b r c = on_board brd r c"
proof -
  assume a: "map length b = map length brd"
  then have l: "length b = length brd" by (rule map_eq_imp_length_eq)
  have "\<And>i. i < length brd \<Longrightarrow> length (b ! i) = length (brd ! i)"
    using a l by (metis nth_map)
  then show ?thesis using l by (auto simp: on_board_def)
qed

lemma length_nth_write:
  "k < length brd \<Longrightarrow> length (brd[i := (brd ! i)[j := v]] ! k) = length (brd ! k)"
  by (cases "k = i") simp_all

lemma shape_write:
  "map length (brd[i := (brd ! i)[j := v]]) = map length brd"
  by (simp add: list_eq_iff_nth_eq length_nth_write)

lemma merge_cells_ok:
  assumes "\<forall>x\<in>set xs. row ! x \<noteq> 0 \<longrightarrow> on_board brd r (int x + ox)"
  shows "\<exists>b. merge_cells brd row r ox xs = Inr b \<and> map length b = map length brd \<and>
           (\<forall>i<length brd. \<forall>j<length (brd ! i).
              b ! i ! j = (if int i = r \<and> (\<exists>x\<in>set xs. row ! x \<noteq> 0 \<and> int x + ox = int j)
                           then row ! nat (int j - ox) else brd ! i ! j))"
  using assms
proof (induction xs arbitrary: brd)
  case Nil
  show ?case by simp
next
  case (Cons x xs)
  show ?case
  proof (cases "row ! x \<noteq> 0")
    case False
    then have "\<forall>x\<in>set xs. row ! x \<noteq> 0 \<longrightarrow> on_board brd r (int x + ox)"
      using Cons.prems by simp
    from Cons.IH [OF this] False show ?thesis by auto
  next
    case True
    let ?b1 = "brd[nat r := (brd ! nat r)[nat (int x + ox) := row ! x]]"
    have ob: "on_board brd r (int x + ox)" using Cons.prems True by simp
    have w: "write_cell brd r (int x + ox) (row ! x) = Inr ?b1"
      using ob by (rule write_cell_on_board)
    have sh: "map length ?b1 = map length brd" by (rule shape_write)
    have "\<forall>x\<in>set xs. row ! x \<noteq> 0 \<longrightarrow> on_board ?b1 r (int x + ox)"
      using Cons.prems on_board_shape [OF sh] by simp
    from Cons.IH [OF this] obtain b where
      b: "merge_cells ?b1 row r ox xs = Inr b" "map length b = map length ?b1"
      and cells: "\<forall>i<length ?b1. \<forall>j<length (?b1 ! i).
              b ! i ! j = (if int i = r \<and> (\<exists>x\<in>set xs. row ! x \<noteq> 0 \<and> int x + ox = int j)
                           then row ! nat (int j - ox) else ?b1 ! i ! j)"
      by blast
    have m: "merge_cells brd row r ox (x # xs) = Inr b"
      using True w b(1) by simp
    have "\<forall>i<length brd. \<forall>j<length (brd ! i).
              b ! i ! j = (if int i = r \<and> (\<exists>x\<in>set (x # xs). row ! x \<noteq> 0 \<and> int x + ox = int j)
                           then row ! nat (int j - ox) else brd ! i ! j)"
    proof (intro allI impI)
      fix i j assume i: "i < length brd" and j: "j < length (brd ! i)"
      have li: "length (?b1 ! i) = length (brd ! i)"
        using i by (rule length_nth_write)
      have c: "b ! i ! j = (if int i = r \<and> (\<exists>x\<in>set xs. row ! x \<noteq> 0 \<and> int x + ox = int j)
                           then row ! nat (int j - ox) else ?b1 ! i ! j)"
        using cells i j li by simp
      have b1: "?b1 ! i ! j = (if int i = r \<and> int x + ox = int j then row ! x else brd ! i ! j)"
        using i j ob by (auto simp: nth_list_update on_board_def)
      show "b ! i ! j = (if int i = r \<and> (\<exists>x\<in>set (x # xs). row ! x \<noteq> 0 \<and> int x + ox = int j)
                           then row ! nat (int j - ox) else brd ! i ! j)"
      proof (cases "int x + ox = int j")
        case True
        then have "nat (int j - ox) = x" by linarith
        then show ?thesis unfolding c b1 using \<open>row ! x \<noteq> 0\<close> True by auto
      next
        case False
        then show ?thesis unfolding c b1 by auto
      qed
    qed
    with m b(2) sh show ?thesis by simp
  qed
qed


lemma bex_upt: "(\<exists>x\<in>{0..<n::nat}. P x) \<longleftrightarrow> (\<exists>x<n. P x)"
  by auto

lemma shape_nth:
  assumes "map length b = map length brd"
  shows "length b = length brd" and "i < length brd \<Longrightarrow> length (b ! i) = length (brd ! i)"
proof -
  show l: "length b = length brd" using assms by (rule map_eq_imp_length_eq)
  show "i < length brd \<Longrightarrow> length (b ! i) = length (brd ! i)"
    using assms l by (metis nth_map)
qed

lemma merge_rows_ok:
  assumes "\<forall>y\<in>set ys. \<forall>x<length (p ! y). p ! y ! x \<noteq> 0 \<longrightarrow> on_board brd (int y + oy) (int x + ox)"
  shows "\<exists>b. merge_rows brd p ox oy ys = Inr b \<and> map length b = map length brd \<and>
           (\<forall>i<length brd. \<forall>j<length (brd ! i).
              b ! i ! j =
                (if \<exists>y\<in>set ys. \<exists>x<length (p ! y).
                      p ! y ! x \<noteq> 0 \<and> int y + oy = int i \<and> int x + ox = int j
                 then p ! nat (int i - oy) ! nat (int j - ox) else brd ! i ! j))"
  using assms
proof (induction ys arbitrary: brd)
  case Nil
  show ?case by simp
next
  case (Cons y ys)
  have "\<forall>x\<in>set [0..<length (p ! y)]. p ! y ! x \<noteq> 0 \<longrightarrow> on_board brd (int y + oy) (int x + ox)"
    using Cons.prems by simp
  from merge_cells_ok [OF this] obtain b1 where
    b1: "merge_cells brd (p ! y) (int y + oy) ox [0..<length (p ! y)] = Inr b1"
    and sh1: "map length b1 = map length brd"
    and c1: "\<forall>i<length brd. \<forall>j<length (brd ! i).
              b1 ! i ! j = (if int i = int y + oy \<and>
                   (\<exists>x\<in>set [0..<length (p ! y)]. p ! y ! x \<noteq> 0 \<and> int x + ox = int j)
                           then p ! y ! nat (int j - ox) else brd ! i ! j)"
    by blast
  have "\<forall>y\<in>set ys. \<forall>x<length (p ! y). p ! y ! x \<noteq> 0 \<longrightarrow> on_board b1 (int y + oy) (int x + ox)"
    using Cons.prems on_board_shape [OF sh1] by simp
  from Cons.IH [OF this] obtain b where
    b: "merge_rows b1 p ox oy ys = Inr b" and sh: "map length b = map length b1"
    and c: "\<forall>i<length b1. \<forall>j<length (b1 ! i).
              b ! i ! j =
                (if \<exists>y\<in>set ys. \<exists>x<length (p ! y).
                      p ! y ! x \<noteq> 0 \<and> int y + oy = int i \<and> int x + ox = int j
                 then p ! nat (int i - oy) ! nat (int j - ox) else b1 ! i ! j)"
    by blast
  have m: "merge_rows brd p ox oy (y # ys) = Inr b" using b1 b by simp
  have "\<forall>i<length brd. \<forall>j<length (brd ! i).
              b ! i ! j =
                (if \<exists>y\<in>set (y # ys). \<exists>x<length (p ! y).
                      p ! y ! x \<noteq> 0 \<and> int y + oy = int i \<and> int x + ox = int j
                 then p ! nat (int i - oy) ! nat (int j - ox) else brd ! i ! j)"
  proof (intro allI impI)
    fix i j assume i: "i < length brd" and j: "j < length (brd ! i)"
    have i1: "i < length b1" and j1: "j < length (b1 ! i)"
      using i j shape_nth [OF sh1] by simp_all
    have cb: "b ! i ! j =
                (if \<exists>y\<in>set ys. \<exists>x<length (p ! y).
                      p ! y ! x \<noteq> 0 \<and> int y + oy = int i \<and> int x + ox = int j
                 then p ! nat (int i - oy) ! nat (int j - ox) else b1 ! i ! j)"
      using c i1 j1 by simp
    have cb1: "b1 ! i ! j = (if int i = int y + oy \<and>
                   (\<exists>x<length (p ! y). p ! y ! x \<noteq> 0 \<and> int x + ox = int j)
                           then p ! y ! nat (int j - ox) else brd ! i ! j)"
      using c1 i j by (simp add: bex_upt)
    show "b ! i ! j =
                (if \<exists>y\<in>set (y # ys). \<exists>x<length (p ! y).
                      p ! y ! x \<noteq> 0 \<and> int y + oy = int i \<and> int x + ox = int j
                 then p ! nat (int i - oy) ! nat (int j - ox) else brd ! i ! j)"
    proof (cases "int i = int y + oy")
      case True
      then have "nat (int i - oy) = y" by linarith
      then show ?thesis unfolding cb cb1 using True by auto
    next
      case False
      then show ?thesis unfolding cb cb1 by auto
    qed
  qed
  with m sh sh1 show ?case by simp
qed


lemma piece_on_board_iff:
  "piece_on_board brd p ox oy \<longleftrightarrow>
   (\<forall>y<length p. \<forall>x<length (p ! y). p ! y ! x \<noteq> 0 \<longrightarrow> on_board brd (int y + oy) (int x + ox))"
  unfolding piece_on_board_def list_all_iff by (simp add: Ball_def)

lemma free_on_board:
  assumes "\<not> collide brd p ox oy"
  shows "piece_on_board brd p ox oy"
  using assms cell_occupied_off_board unfolding collide_iff piece_on_board_iff by blast

lemma merge_on_board:
  assumes "piece_on_board brd p ox oy"
  shows "\<exists>b. merge brd p ox oy = Inr b \<and> map length b = map length brd \<and>
         (\<forall>i<length brd. \<forall>j<length (brd ! i).
            b ! i ! j = (if covered p ox oy i j
                         then p ! nat (int i - oy) ! nat (int j - ox) else brd ! i ! j))"
proof -
  have "\<forall>y\<in>set [0..<length p]. \<forall>x<length (p ! y).
          p ! y ! x \<noteq> 0 \<longrightarrow> on_board brd (int y + oy) (int x + ox)"
    using assms unfolding piece_on_board_iff by simp
  from merge_rows_ok [OF this] show ?thesis
    by (simp add: merge_def covered_def bex_upt)
qed

lemma merge_ok:
  assumes "\<not> collide brd p ox oy"
  shows "\<exists>b. merge brd p ox oy = Inr b \<and> map length b = map length brd \<and>
         (\<forall>i<length brd. \<forall>j<length (brd ! i).
            b ! i ! j = (if covered p ox oy i j
                         then p ! nat (int i - oy) ! nat (int j - ox) else brd ! i ! j))"
  using assms by (intro merge_on_board free_on_board)

lemma piece_on_board_shape:
  assumes "map length b = map length brd"
  shows "piece_on_board b p ox oy = piece_on_board brd p ox oy"
  unfolding piece_on_board_iff on_board_shape [OF assms] ..

lemma rows_of_length:
  "\<forall>r\<in>set xs. length r = n \<Longrightarrow> map length xs = replicate (length xs) n"
  by (induction xs) simp_all

lemma garbage_row_shape:
  assumes "brd \<noteq> []" and "\<forall>r\<in>set brd. length r = COLS"
  shows "tl brd @ [(replicate COLS 8)[k := 0]] \<noteq> []"
    and "\<forall>r\<in>set (tl brd @ [(replicate COLS 8)[k := 0]]). length r = COLS"
    and "map length (tl brd @ [(replicate COLS 8)[k := 0]]) = map length brd"
proof -
  show "tl brd @ [(replicate COLS 8)[k := 0]] \<noteq> []" by simp
  have t: "\<forall>r\<in>set (tl brd). length r = COLS"
    using assms by (metis list.set_sel(2))
  then show a: "\<forall>r\<in>set (tl brd @ [(replicate COLS 8)[k := 0]]). length r = COLS" by simp
  have "length (tl brd @ [(replicate COLS 8)[k := 0]]) = length brd" using assms(1) by simp
  then show "map length (tl brd @ [(replicate COLS 8)[k := 0]]) = map length brd"
    using rows_of_length [OF a] rows_of_length [OF assms(2)] by simp
qed

lemma addGarbage_shape:
  assumes "board g \<noteq> []" and "\<forall>r\<in>set (board g). length r = COLS"
    and "addGarbage g vs = Inr g'"
  shows "map length (board g') = map length (board g) \<and> piece g' = piece g \<and>
         pos_x g' = pos_x g \<and> pos_y g' = pos_y g"
  using assms
proof (induction vs arbitrary: g)
  case Nil
  then show ?case by simp
next
  case (Cons v vs)
  let ?g1 = "g\<lparr>board := tl (board g) @ [(replicate COLS 8)[nat \<lfloor>v\<rfloor> := 0]]\<rparr>"
  have rec: "addGarbage ?g1 vs = Inr g'"
    using Cons.prems(3) by (simp add: Let_def split: if_splits)
  note sh = garbage_row_shape [OF Cons.prems(1,2), of "nat \<lfloor>v\<rfloor>"]
  have "map length (board g') = map length (board ?g1) \<and> piece g' = piece ?g1 \<and>
        pos_x g' = pos_x ?g1 \<and> pos_y g' = pos_y ?g1"
    using sh(1,2) rec by (intro Cons.IH) simp_all
  then show ?case using sh(3) by simp
qed

text \<open>
  C10, as stated, fails: \<open>merge\<close> is not only invoked where \<open>collide\<close> is false.
  \<open>drop\<close> asks \<open>collide\<close> about the row below the piece and then merges at the
  piece's own position, and \<open>addGarbage\<close> moves the board up under the piece without
  looking at it. The T piece rests on the floor of an empty board, where it does not
  collide. A garbage line arrives; now the piece collides where it is. The next \<open>drop\<close>
  locks it, and \<open>merge\<close> writes its cells over three cells of the garbage row.
\<close>

theorem merge_at_colliding_position:
  "\<not> collide (board game_on_floor) (PIECES ! 0) (pos_x game_on_floor) (pos_y game_on_floor) \<and>
   addGarbage game_on_floor [0] = Inr game_after_garbage \<and>
   piece game_after_garbage = Some (PIECES ! 0) \<and>
   collide (board game_after_garbage) (PIECES ! 0)
     (pos_x game_after_garbage) (pos_y game_after_garbage) \<and>
   locks game_after_garbage \<and>
   drop 18 (board game_after_garbage) =
     [[0, 0, 0, 0, 0, 0, 0, 0, 0, 0], [0, 8, 8, 8, 8, 8, 8, 8, 8, 8]] \<and>
   map_sum id (drop 18)
     (merge (board game_after_garbage) (PIECES ! 0)
        (pos_x game_after_garbage) (pos_y game_after_garbage)) =
     Inr [[0, 0, 0, 0, 1, 0, 0, 0, 0, 0], [0, 8, 8, 1, 1, 1, 8, 8, 8, 8]] \<and>
   map_sum id (\<lambda>(g, events). drop 18 (board g)) (drop_piece game_after_garbage 0) =
     Inr [[0, 0, 0, 0, 1, 0, 0, 0, 0, 0], [0, 8, 8, 1, 1, 1, 8, 8, 8, 8]]"
proof -
  have 1: "\<not> collide (board game_on_floor) (PIECES ! 0) (pos_x game_on_floor) (pos_y game_on_floor)"
    by code_simp
  have 2: "addGarbage game_on_floor [0] = Inr game_after_garbage"
    by (simp add: game_after_garbage_def game_on_floor_def constructor_def createBoard_def
        ROWS_def COLS_def numeral_eq_Suc)
  have 3: "piece game_after_garbage = Some (PIECES ! 0)"
    by (simp add: game_after_garbage_def game_on_floor_def)
  have 4: "collide (board game_after_garbage) (PIECES ! 0)
             (pos_x game_after_garbage) (pos_y game_after_garbage)"
    by code_simp
  have 5: "locks game_after_garbage" by code_simp
  have 6: "drop 18 (board game_after_garbage) =
             [[0, 0, 0, 0, 0, 0, 0, 0, 0, 0], [0, 8, 8, 8, 8, 8, 8, 8, 8, 8]]"
    by code_simp
  have 7: "map_sum id (drop 18)
             (merge (board game_after_garbage) (PIECES ! 0)
                (pos_x game_after_garbage) (pos_y game_after_garbage)) =
           Inr [[0, 0, 0, 0, 1, 0, 0, 0, 0, 0], [0, 8, 8, 1, 1, 1, 8, 8, 8, 8]]"
    by code_simp
  have 8: "map_sum id (\<lambda>(g, events). drop 18 (board g)) (drop_piece game_after_garbage 0) =
           Inr [[0, 0, 0, 0, 1, 0, 0, 0, 0, 0], [0, 8, 8, 1, 1, 1, 8, 8, 8, 8]]"
    by code_simp
  from 1 2 3 4 5 6 7 8 show ?thesis by (intro conjI)
qed

text \<open>
  C10, amended. \<open>collide\<close> always answers: a missing row or cell reads as \<open>undefined\<close>,
  which is not 0. A nonzero piece cell whose target lies off the board (negative index
  or past either dimension) makes \<open>collide\<close> true. So where \<open>collide\<close> is false, every
  nonzero piece cell targets a cell of the board, \<open>merge\<close> returns without a fault, the
  board keeps its dimensions, the covered cells hold the piece's values and all other
  cells are unchanged. \<open>merge\<close> does the same at every position at which the nonzero
  piece cells lie on the board, free or not. That is the case at a position where
  \<open>collide\<close> was false before garbage lines arrived on a board of rows of ten cells:
  \<open>addGarbage\<close> keeps the dimensions of the board, the piece and its position, so that
  \<open>merge\<close> there still writes inside the board, although \<open>collide\<close> may now be true.
\<close>

theorem collide_conservative_merge_in_bounds:
  "(\<forall>y<length p. \<forall>x<length (p ! y).
      p ! y ! x \<noteq> 0 \<and> \<not> on_board brd (int y + oy) (int x + ox) \<longrightarrow> collide brd p ox oy) \<and>
   (\<not> collide brd p ox oy \<longrightarrow>
      (\<forall>y<length p. \<forall>x<length (p ! y).
         p ! y ! x \<noteq> 0 \<longrightarrow> on_board brd (int y + oy) (int x + ox)) \<and>
      (\<exists>b. merge brd p ox oy = Inr b \<and> map length b = map length brd \<and>
         (\<forall>i<length brd. \<forall>j<length (brd ! i).
            b ! i ! j = (if covered p ox oy i j
                         then p ! nat (int i - oy) ! nat (int j - ox) else brd ! i ! j)))) \<and>
   ((\<forall>y<length p. \<forall>x<length (p ! y).
       p ! y ! x \<noteq> 0 \<longrightarrow> on_board brd (int y + oy) (int x + ox)) \<longrightarrow>
      (\<exists>b. merge brd p ox oy = Inr b \<and> map length b = map length brd \<and>
         (\<forall>i<length brd. \<forall>j<length (brd ! i).
            b ! i ! j = (if covered p ox oy i j
                         then p ! nat (int i - oy) ! nat (int j - ox) else brd ! i ! j)))) \<and>
   (board g = brd \<and> brd \<noteq> [] \<and> (\<forall>r\<in>set brd. length r = COLS) \<and>
    \<not> collide brd p ox oy \<and> addGarbage g vs = Inr g' \<longrightarrow>
      piece g' = piece g \<and> pos_x g' = pos_x g \<and> pos_y g' = pos_y g \<and>
      map length (board g') = map length brd \<and>
      (\<forall>y<length p. \<forall>x<length (p ! y).
         p ! y ! x \<noteq> 0 \<longrightarrow> on_board (board g') (int y + oy) (int x + ox)) \<and>
      (\<exists>b. merge (board g') p ox oy = Inr b \<and> map length b = map length brd \<and>
         (\<forall>i<length brd. \<forall>j<length (brd ! i).
            b ! i ! j = (if covered p ox oy i j
                         then p ! nat (int i - oy) ! nat (int j - ox)
                         else board g' ! i ! j))))"
proof -
  have 1: "\<forall>y<length p. \<forall>x<length (p ! y).
      p ! y ! x \<noteq> 0 \<and> \<not> on_board brd (int y + oy) (int x + ox) \<longrightarrow> collide brd p ox oy"
    using cell_occupied_off_board unfolding collide_iff by blast
  have 2: "\<not> collide brd p ox oy \<longrightarrow>
      (\<forall>y<length p. \<forall>x<length (p ! y).
         p ! y ! x \<noteq> 0 \<longrightarrow> on_board brd (int y + oy) (int x + ox)) \<and>
      (\<exists>b. merge brd p ox oy = Inr b \<and> map length b = map length brd \<and>
         (\<forall>i<length brd. \<forall>j<length (brd ! i).
            b ! i ! j = (if covered p ox oy i j
                         then p ! nat (int i - oy) ! nat (int j - ox) else brd ! i ! j)))"
  proof
    assume nc: "\<not> collide brd p ox oy"
    have "\<forall>y<length p. \<forall>x<length (p ! y).
         p ! y ! x \<noteq> 0 \<longrightarrow> on_board brd (int y + oy) (int x + ox)"
      using free_on_board [OF nc] unfolding piece_on_board_iff .
    with merge_ok [OF nc] show "(\<forall>y<length p. \<forall>x<length (p ! y).
         p ! y ! x \<noteq> 0 \<longrightarrow> on_board brd (int y + oy) (int x + ox)) \<and>
      (\<exists>b. merge brd p ox oy = Inr b \<and> map length b = map length brd \<and>
         (\<forall>i<length brd. \<forall>j<length (brd ! i).
            b ! i ! j = (if covered p ox oy i j
                         then p ! nat (int i - oy) ! nat (int j - ox) else brd ! i ! j)))"
      by (rule conjI [rotated])
  qed
  have 3: "(\<forall>y<length p. \<forall>x<length (p ! y).
       p ! y ! x \<noteq> 0 \<longrightarrow> on_board brd (int y + oy) (int x + ox)) \<longrightarrow>
      (\<exists>b. merge brd p ox oy = Inr b \<and> map length b = map length brd \<and>
         (\<forall>i<length brd. \<forall>j<length (brd ! i).
            b ! i ! j = (if covered p ox oy i j
                         then p ! nat (int i - oy) ! nat (int j - ox) else brd ! i ! j)))"
    using merge_on_board [of brd p ox oy] unfolding piece_on_board_iff by (rule impI)
  have 4: "board g = brd \<and> brd \<noteq> [] \<and> (\<forall>r\<in>set brd. length r = COLS) \<and>
    \<not> collide brd p ox oy \<and> addGarbage g vs = Inr g' \<longrightarrow>
      piece g' = piece g \<and> pos_x g' = pos_x g \<and> pos_y g' = pos_y g \<and>
      map length (board g') = map length brd \<and>
      (\<forall>y<length p. \<forall>x<length (p ! y).
         p ! y ! x \<noteq> 0 \<longrightarrow> on_board (board g') (int y + oy) (int x + ox)) \<and>
      (\<exists>b. merge (board g') p ox oy = Inr b \<and> map length b = map length brd \<and>
         (\<forall>i<length brd. \<forall>j<length (brd ! i).
            b ! i ! j = (if covered p ox oy i j
                         then p ! nat (int i - oy) ! nat (int j - ox)
                         else board g' ! i ! j)))"
  proof
    assume a: "board g = brd \<and> brd \<noteq> [] \<and> (\<forall>r\<in>set brd. length r = COLS) \<and>
      \<not> collide brd p ox oy \<and> addGarbage g vs = Inr g'"
    then have ne: "board g \<noteq> []" and rows: "\<forall>r\<in>set (board g). length r = COLS"
      and ag: "addGarbage g vs = Inr g'" and nc: "\<not> collide brd p ox oy" and bg: "board g = brd"
      by simp_all
    from addGarbage_shape [OF ne rows ag] have
      sh: "map length (board g') = map length brd" and
      same: "piece g' = piece g" "pos_x g' = pos_x g" "pos_y g' = pos_y g"
      using bg by simp_all
    have on: "piece_on_board (board g') p ox oy"
      using free_on_board [OF nc] piece_on_board_shape [OF sh] by simp
    then have cells: "\<forall>y<length p. \<forall>x<length (p ! y).
         p ! y ! x \<noteq> 0 \<longrightarrow> on_board (board g') (int y + oy) (int x + ox)"
      unfolding piece_on_board_iff .
    from merge_on_board [OF on] obtain b where
      m: "merge (board g') p ox oy = Inr b" and shb: "map length b = map length (board g')"
      and c: "\<forall>i<length (board g'). \<forall>j<length (board g' ! i).
            b ! i ! j = (if covered p ox oy i j
                         then p ! nat (int i - oy) ! nat (int j - ox) else board g' ! i ! j)"
      by blast
    have c': "\<forall>i<length brd. \<forall>j<length (brd ! i).
            b ! i ! j = (if covered p ox oy i j
                         then p ! nat (int i - oy) ! nat (int j - ox) else board g' ! i ! j)"
      using c shape_nth [OF sh] by simp
    have "\<exists>b. merge (board g') p ox oy = Inr b \<and> map length b = map length brd \<and>
         (\<forall>i<length brd. \<forall>j<length (brd ! i).
            b ! i ! j = (if covered p ox oy i j
                         then p ! nat (int i - oy) ! nat (int j - ox)
                         else board g' ! i ! j))"
      using m shb sh c' by auto
    with same sh cells show "piece g' = piece g \<and> pos_x g' = pos_x g \<and> pos_y g' = pos_y g \<and>
      map length (board g') = map length brd \<and>
      (\<forall>y<length p. \<forall>x<length (p ! y).
         p ! y ! x \<noteq> 0 \<longrightarrow> on_board (board g') (int y + oy) (int x + ox)) \<and>
      (\<exists>b. merge (board g') p ox oy = Inr b \<and> map length b = map length brd \<and>
         (\<forall>i<length brd. \<forall>j<length (brd ! i).
            b ! i ! j = (if covered p ox oy i j
                         then p ! nat (int i - oy) ! nat (int j - ox)
                         else board g' ! i ! j)))"
      by (intro conjI)
  qed
  from 1 2 3 4 show ?thesis by (intro conjI)
qed

theorem collide_conservative_merge_in_bounds_witness:
  "collide createBoard (PIECES ! 0) 8 0 \<and>
   \<not> collide createBoard (PIECES ! 0) 3 0 \<and>
   on_board createBoard 1 5 \<and>
   (\<exists>b. merge createBoard (PIECES ! 0) 3 0 = Inr b \<and> map length b = map length createBoard) \<and>
   collide (board game_after_garbage) (PIECES ! 0) 3 18 \<and>
   on_board (board game_after_garbage) 19 5 \<and>
   (\<exists>b. merge (board game_after_garbage) (PIECES ! 0) 3 18 = Inr b \<and>
        map length b = map length createBoard)"
proof -
  have off: "(1::nat) < length (PIECES ! 0)" "(2::nat) < length (PIECES ! 0 ! 1)"
    "PIECES ! 0 ! 1 ! 2 \<noteq> 0" "\<not> on_board createBoard (int 1 + 0) (int 2 + 8)"
    by (simp_all add: PIECES_def on_board_def createBoard_def COLS_def ROWS_def)
  have free: "\<not> collide createBoard (PIECES ! 0) 3 0" by code_simp
  have hit: "collide createBoard (PIECES ! 0) 8 0"
    using collide_conservative_merge_in_bounds [where p = "PIECES ! 0" and brd = createBoard and ox = 8 and oy = 0] off by blast
  have "on_board createBoard (int 1 + 0) (int 2 + 3)"
    using collide_conservative_merge_in_bounds [where p = "PIECES ! 0" and brd = createBoard and ox = 3 and oy = 0] free off(1-3)
    by blast
  then have cell: "on_board createBoard 1 5" by simp
  have m: "\<exists>b. merge createBoard (PIECES ! 0) 3 0 = Inr b \<and> map length b = map length createBoard"
    using collide_conservative_merge_in_bounds [where p = "PIECES ! 0" and brd = createBoard and ox = 3 and oy = 0] free by blast
  have bg: "board game_on_floor = createBoard"
    by (simp add: game_on_floor_def constructor_def)
  have ne: "createBoard \<noteq> []" by (simp add: createBoard_def ROWS_def)
  have rows: "\<forall>r\<in>set createBoard. length r = COLS" by (simp add: createBoard_def)
  have free2: "\<not> collide createBoard (PIECES ! 0) 3 18" by code_simp
  have ag: "addGarbage game_on_floor [0] = Inr game_after_garbage"
    by (simp add: game_after_garbage_def game_on_floor_def constructor_def createBoard_def
        ROWS_def COLS_def numeral_eq_Suc)
  note t = collide_conservative_merge_in_bounds
    [where p = "PIECES ! 0" and brd = createBoard and ox = 3 and oy = 18
       and g = game_on_floor and vs = "[0]" and g' = game_after_garbage]
  have hit2: "collide (board game_after_garbage) (PIECES ! 0) 3 18" by code_simp
  have "on_board (board game_after_garbage) (int 1 + 18) (int 2 + 3)"
    using t bg ne rows free2 ag off(1-3) by blast
  then have cell2: "on_board (board game_after_garbage) 19 5" by simp
  have m2: "\<exists>b. merge (board game_after_garbage) (PIECES ! 0) 3 18 = Inr b \<and>
        map length b = map length createBoard"
    using t bg ne rows free2 ag by blast
  from hit free cell m hit2 cell2 m2 show ?thesis by (intro conjI)
qed

subsection \<open>The sweep loop\<close>

lemma zero_row_not_full: "r \<noteq> [] \<Longrightarrow> \<not> row_full (replicate (length r) 0)"
  by (cases r) (simp_all add: row_full_def)

lemma js_get_append_mid: "js_get (xs @ x # ys) (int (length xs)) = Some x"
  by (simp add: js_get_def)

lemma sweep_loop_char:
  assumes "\<forall>r\<in>set pre. r \<noteq> []" and "pre \<noteq> []"
  shows "sweep_loop (pre @ suf) (int (length pre) - 1) c =
         Some (Inr (if \<exists>r\<in>set (tl pre). row_full r
                    then (zero_rows (filter row_full pre) @ filter (\<lambda>r. \<not> row_full r) pre @ suf,
                          c + int (length (filter row_full pre)))
                    else (pre @ suf, c)))"
  using assms
proof (induction "2 * length (filter row_full pre) + length pre" arbitrary: pre suf c rule: less_induct)
  case less
  from less.prems(2) obtain pre' r where pre: "pre = pre' @ [r]"
    by (cases pre rule: rev_cases) auto
  show ?case
  proof (cases "pre' = []")
    case True
    then show ?thesis
      using pre by (subst sweep_loop.simps) simp
  next
    case False
    then have ypos: "int (length pre) - 1 > 0" and y: "int (length pre) - 1 = int (length pre')"
      using pre by auto
    have get: "js_get (pre @ suf) (int (length pre')) = Some r"
      using pre js_get_append_mid [of pre' r suf] by simp
    have rne: "r \<noteq> []" and pre'ne: "\<forall>q\<in>set pre'. q \<noteq> []"
      using less.prems(1) pre by auto
    have tl: "set (tl pre) = set (tl pre') \<union> {r}"
      using False pre by (cases pre') auto
    show ?thesis
    proof (cases "row_full r")
      case True
      let ?z = "replicate (length r) (0::int)"
      have znf: "\<not> row_full ?z" using rne by (rule zero_row_not_full)
      have cut: "take (nat (int (length pre'))) (pre @ suf) @
                 List.drop (Suc (nat (int (length pre')))) (pre @ suf) = pre' @ suf"
        using pre by simp
      have step: "sweep_loop (pre @ suf) (int (length pre) - 1) c =
                  sweep_loop ((?z # pre') @ suf) (int (length (?z # pre')) - 1) (c + 1)"
        using ypos get True cut y by (subst sweep_loop.simps) simp
      have m: "2 * length (filter row_full (?z # pre')) + length (?z # pre')
               < 2 * length (filter row_full pre) + length pre"
        using znf True pre by simp
      have ne: "\<forall>q\<in>set (?z # pre'). q \<noteq> []" using pre'ne rne by auto
      have ih: "sweep_loop ((?z # pre') @ suf) (int (length (?z # pre')) - 1) (c + 1) =
         Some (Inr (if \<exists>q\<in>set (tl (?z # pre')). row_full q
                    then (zero_rows (filter row_full (?z # pre')) @
                            filter (\<lambda>r. \<not> row_full r) (?z # pre') @ suf,
                          c + 1 + int (length (filter row_full (?z # pre'))))
                    else ((?z # pre') @ suf, c + 1)))"
        by (rule less.hyps [OF m ne]) simp
      show ?thesis
      proof (cases "\<exists>q\<in>set pre'. row_full q")
        case ex: True
        then show ?thesis
          unfolding step ih using True pre znf tl by (simp add: zero_rows_def)
      next
        case nex: False
        then have "filter row_full pre' = []" "filter (\<lambda>r. \<not> row_full r) pre' = pre'"
          by (auto simp: filter_empty_conv filter_id_conv)
        then show ?thesis
          unfolding step ih using True pre znf tl nex by (simp add: zero_rows_def)
      qed
    next
      case nf: False
      have step: "sweep_loop (pre @ suf) (int (length pre) - 1) c =
                  sweep_loop (pre' @ (r # suf)) (int (length pre') - 1) c"
        using ypos get nf y pre by (subst sweep_loop.simps) simp
      have m: "2 * length (filter row_full pre') + length pre'
               < 2 * length (filter row_full pre) + length pre"
        using pre by simp
      have ih: "sweep_loop (pre' @ (r # suf)) (int (length pre') - 1) c =
         Some (Inr (if \<exists>q\<in>set (tl pre'). row_full q
                    then (zero_rows (filter row_full pre') @
                            filter (\<lambda>r. \<not> row_full r) pre' @ r # suf,
                          c + int (length (filter row_full pre')))
                    else (pre' @ r # suf, c)))"
        by (rule less.hyps [OF m pre'ne False])
      show ?thesis
        unfolding step ih using nf pre tl by simp
    qed
  qed
qed

text \<open>
  On a board without empty rows the loop returns: when a row below row 0 is full, every
  full row (row 0 too, once it has moved down) is replaced by a row of zeros on top and
  counted; otherwise nothing changes.
\<close>

lemma sweep_loop_board:
  assumes "\<forall>r\<in>set brd. r \<noteq> []"
  shows "sweep_loop brd (int (length brd) - 1) 0 =
         Some (Inr (if \<exists>r\<in>set (tl brd). row_full r
                    then (zero_rows (filter row_full brd) @ filter (\<lambda>r. \<not> row_full r) brd,
                          int (length (filter row_full brd)))
                    else (brd, 0)))"
proof (cases "brd = []")
  case True
  then show ?thesis by (subst sweep_loop.simps) simp
next
  case False
  from sweep_loop_char [OF assms False, of "[]" 0] show ?thesis by simp
qed

lemma arenaSweep_full:
  assumes rows: "\<forall>r\<in>set (board g). r \<noteq> []"
    and full: "\<exists>r\<in>set (tl (board g)). row_full r"
    and k: "k = int (length (filter row_full (board g)))"
    and new: "new = score g + k * 10"
  shows "0 < k"
    and "arenaSweep g =
           Inr (g\<lparr>board := zero_rows (filter row_full (board g)) @
                             filter (\<lambda>r. \<not> row_full r) (board g),
                  score := new\<rparr>,
                (if onScore g then [ScoreEvent new] else []) @
                (if new div 100 - score g div 100 > 0 \<and> onLinesCleared g
                 then [LinesClearedEvent (new div 100 - score g div 100)] else []))"
proof -
  from full obtain r where r: "r \<in> set (tl (board g))" "row_full r" by blast
  then have "board g \<noteq> []" by auto
  then have "r \<in> set (board g)" using r(1) by (rule list.set_sel(2))
  then have "filter row_full (board g) \<noteq> []" using r(2) by (auto simp: filter_empty_conv)
  then show pos: "0 < k" using k by simp
  have l: "sweep_loop (board g) (int (length (board g)) - 1) 0 =
           Some (Inr (zero_rows (filter row_full (board g)) @
                        filter (\<lambda>r. \<not> row_full r) (board g), k))"
    using sweep_loop_board [OF rows] full k by simp
  show "arenaSweep g =
           Inr (g\<lparr>board := zero_rows (filter row_full (board g)) @
                             filter (\<lambda>r. \<not> row_full r) (board g),
                  score := new\<rparr>,
                (if onScore g then [ScoreEvent new] else []) @
                (if new div 100 - score g div 100 > 0 \<and> onLinesCleared g
                 then [LinesClearedEvent (new div 100 - score g div 100)] else []))"
    using l pos new by (simp add: arenaSweep_def Let_def)
qed

lemma arenaSweep_none:
  assumes rows: "\<forall>r\<in>set (board g). r \<noteq> []"
    and none: "\<not> (\<exists>r\<in>set (tl (board g)). row_full r)"
  shows "arenaSweep g = Inr (g, [])"
proof -
  have "sweep_loop (board g) (int (length (board g)) - 1) 0 = Some (Inr (board g, 0))"
    using sweep_loop_board [OF rows] none by simp
  then show ?thesis by (simp add: arenaSweep_def)
qed

text \<open>
  C5. On a board without empty rows \<open>arenaSweep\<close> returns. It clears rows exactly when
  some row below row 0 is full; then the number \<open>k\<close> of rows cleared is the number of
  full rows of the board and is positive, the new board is \<open>k\<close> rows of zeros on top of
  the rows that were not full, the score goes up by \<open>10 * k\<close> in one assignment, the
  score callback (when registered) is called exactly once, with the new score, and the
  lines-cleared callback (when registered) is called after it with
  \<open>floor(new / 100) - floor(old / 100)\<close> when that number is positive and not at all
  when it is 0. When no row below row 0 is full, the game is unchanged and no callback
  is called.
\<close>

theorem sweep_scores_once:
  assumes rows: "\<forall>r\<in>set (board g). r \<noteq> []"
    and k: "k = int (length (filter row_full (board g)))"
    and new: "new = score g + k * 10"
  shows "((\<exists>r\<in>set (tl (board g)). row_full r) \<longrightarrow>
            0 < k \<and>
            arenaSweep g =
              Inr (g\<lparr>board := zero_rows (filter row_full (board g)) @
                                filter (\<lambda>r. \<not> row_full r) (board g),
                     score := new\<rparr>,
                   (if onScore g then [ScoreEvent new] else []) @
                   (if new div 100 - score g div 100 > 0 \<and> onLinesCleared g
                    then [LinesClearedEvent (new div 100 - score g div 100)] else []))) \<and>
         (\<not> (\<exists>r\<in>set (tl (board g)). row_full r) \<longrightarrow> arenaSweep g = Inr (g, []))"
  using arenaSweep_full [OF rows _ k new] arenaSweep_none [OF rows] by blast

theorem sweep_scores_once_witness:
  "arenaSweep game_before_sweep =
     Inr (game_before_sweep\<lparr>board := createBoard, score := 106\<rparr>,
          [ScoreEvent 106, LinesClearedEvent 1]) \<and>
   arenaSweep (constructor False) = Inr (constructor False, [])"
proof -
  have rows: "\<forall>r\<in>set (board game_before_sweep). r \<noteq> []"
    by (auto simp: game_before_sweep_def bottom_row_full_def COLS_def ROWS_def)
  have k: "1 = int (length (filter row_full (board game_before_sweep)))" by code_simp
  have new: "106 = score game_before_sweep + 1 * 10" by (simp add: game_before_sweep_def)
  have full: "\<exists>r\<in>set (tl (board game_before_sweep)). row_full r" by code_simp
  have b: "zero_rows (filter row_full (board game_before_sweep)) @
           filter (\<lambda>r. \<not> row_full r) (board game_before_sweep) = createBoard"
    by code_simp
  have f: "score game_before_sweep = 96" "onScore game_before_sweep"
    "onLinesCleared game_before_sweep"
    by (simp_all add: game_before_sweep_def)
  have 1: "arenaSweep game_before_sweep =
     Inr (game_before_sweep\<lparr>board := createBoard, score := 106\<rparr>,
          [ScoreEvent 106, LinesClearedEvent 1])"
    using sweep_scores_once [OF rows k new] full b f by simp
  have rows0: "\<forall>r\<in>set (board (constructor False)). r \<noteq> []"
    by (auto simp: constructor_def createBoard_def COLS_def ROWS_def)
  have none: "\<not> (\<exists>r\<in>set (tl (board (constructor False))). row_full r)" by code_simp
  have 2: "arenaSweep (constructor False) = Inr (constructor False, [])"
    using sweep_scores_once [OF rows0 refl refl] none by blast
  from 1 2 show ?thesis by (intro conjI)
qed

subsection \<open>The callbacks of a locking drop\<close>

text \<open>
  C4, as stated, fails: when the piece that locks ends the game, \<open>drop\<close> calls the
  game-over callback before the board callback, not after it.
\<close>

theorem game_over_precedes_board_update:
  "drop_callbacks game_before_top_out 0 = Inr [''onNextPiece'', ''onGameOver'', ''onBoardUpdate'']"
  by code_simp

lemma arenaSweep_swept:
  assumes rows: "\<forall>r\<in>set (board g). r \<noteq> []"
  shows "arenaSweep g =
           Inr (g\<lparr>board := swept (board g), score := score g + cleared_rows (board g) * 10\<rparr>,
                sweep_callbacks (onScore g) (onLinesCleared g) (score g) (cleared_rows (board g)))"
proof (cases "\<exists>r\<in>set (tl (board g)). row_full r")
  case True
  from arenaSweep_full [OF rows True refl refl] True show ?thesis
    by (simp add: swept_def cleared_rows_def sweep_callbacks_def)
next
  case False
  from arenaSweep_none [OF rows False] False show ?thesis
    by (simp add: swept_def cleared_rows_def sweep_callbacks_def)
qed

lemma shape_rows_nonempty:
  assumes "map length b = map length brd" and "\<forall>r\<in>set brd. r \<noteq> []"
  shows "\<forall>r\<in>set b. r \<noteq> []"
proof -
  have "set (map length b) = set (map length brd)" using assms(1) by simp
  then have "length ` set b = length ` set brd" by simp
  then show ?thesis using assms(2) by (metis imageE imageI length_0_conv)
qed

lemma drop_lock:
  assumes p: "piece g = Some p" and q: "nextPiece g = Some q"
    and lock: "collide (board g) p (pos_x g) (pos_y g + 1)"
    and m: "merge (board g) p (pos_x g) (pos_y g) = Inr b"
    and rows: "\<forall>r\<in>set b. r \<noteq> []"
    and n: "randomPiece v = Inr n"
  shows "drop_piece g v =
           Inr (g\<lparr>board := swept b, score := score g + cleared_rows b * 10,
                  piece := Some q, nextPiece := Some n, pos_x := 3, pos_y := 0,
                  gameOver := (gameOver g \<or> collide (swept b) q 3 0), dropCounter := 0\<rparr>,
                sweep_callbacks (onScore g) (onLinesCleared g) (score g) (cleared_rows b) @
                (if onNextPiece g then [NextPieceEvent n] else []) @
                (if collide (swept b) q 3 0 \<and> onGameOver g then [GameOverEvent] else []) @
                (if onBoardUpdate g then [BoardUpdateEvent (swept b)] else []))"
proof -
  let ?g2 = "g\<lparr>pos_y := pos_y g + 1, pos_y := pos_y g + 1 - 1, board := b\<rparr>"
  have "\<forall>r\<in>set (board ?g2). r \<noteq> []" using rows by simp
  from arenaSweep_swept [OF this]
  have s: "arenaSweep ?g2 =
           Inr (?g2\<lparr>board := swept b, score := score g + cleared_rows b * 10\<rparr>,
                sweep_callbacks (onScore g) (onLinesCleared g) (score g) (cleared_rows b))"
    by simp
  show ?thesis
    using p q lock m s n by (simp add: drop_piece_def Let_def)
qed

text \<open>
  C4, amended. Take a game whose board has no empty row and whose piece has its
  nonzero cells on the board (on free cells, or on occupied ones after garbage lines
  have arrived) and collides one row lower, and a value \<open>v\<close> in \<open>[0, 7)\<close> for the new
  piece. Then \<open>drop\<close> returns: the piece is merged into the board, the sweep clears
  \<open>k\<close> rows, the next piece becomes active at \<open>(3, 0)\<close> and a new next piece is made.
  The callbacks are, in this order:
  \<^item> if \<open>k > 0\<close>, the score callback with the new score \<open>old + 10 * k\<close> and then, if the
    score crossed a multiple of 100, the lines-cleared callback with the number of
    multiples crossed;
  \<^item> next-piece-changed with the new next piece;
  \<^item> game-over, only if the piece that has just become active collides at \<open>(3, 0)\<close>;
  \<^item> board-changed last, with the board after the sweep.
  Each callback is called only when registered.
\<close>

theorem drop_lock_callback_order:
  assumes p: "piece g = Some p" and q: "nextPiece g = Some q"
    and rows: "\<forall>r\<in>set (board g). r \<noteq> []"
    and inside: "piece_on_board (board g) p (pos_x g) (pos_y g)"
    and lock: "collide (board g) p (pos_x g) (pos_y g + 1)"
    and v: "0 \<le> v" "v < 7"
  shows "\<exists>b n k b'.
           merge (board g) p (pos_x g) (pos_y g) = Inr b \<and>
           randomPiece v = Inr n \<and>
           k = cleared_rows b \<and> b' = swept b \<and>
           drop_piece g v =
             Inr (g\<lparr>board := b', score := score g + k * 10,
                    piece := Some q, nextPiece := Some n, pos_x := 3, pos_y := 0,
                    gameOver := (gameOver g \<or> collide b' q 3 0), dropCounter := 0\<rparr>,
                  (if k > 0 then
                     (if onScore g then [ScoreEvent (score g + k * 10)] else []) @
                     (if (score g + k * 10) div 100 - score g div 100 > 0 \<and> onLinesCleared g
                      then [LinesClearedEvent ((score g + k * 10) div 100 - score g div 100)]
                      else [])
                   else []) @
                  (if onNextPiece g then [NextPieceEvent n] else []) @
                  (if collide b' q 3 0 \<and> onGameOver g then [GameOverEvent] else []) @
                  (if onBoardUpdate g then [BoardUpdateEvent b'] else []))"
proof -
  from merge_on_board [OF inside] obtain b where
    m: "merge (board g) p (pos_x g) (pos_y g) = Inr b" and sh: "map length b = map length (board g)"
    by blast
  have rb: "\<forall>r\<in>set b. r \<noteq> []" using sh rows by (rule shape_rows_nonempty)
  have n: "randomPiece v = Inr (PIECES ! nat \<lfloor>v\<rfloor>)" using v by (rule randomPiece_ok)
  from drop_lock [OF p q lock m rb n] m n show ?thesis
    unfolding sweep_callbacks_def by blast
qed

theorem drop_lock_callback_order_witness:
  "addGarbage game_before_attack [0] = Inr game_under_attack \<and>
   collide (board game_under_attack) (PIECES ! 1)
     (pos_x game_under_attack) (pos_y game_under_attack) \<and>
   (\<exists>b n b'.
      merge (board game_under_attack) (PIECES ! 1) 0 18 = Inr b \<and>
      drop 18 b = [[2, 2, 0, 0, 0, 0, 0, 0, 0, 0], [2, 2, 8, 8, 8, 8, 8, 8, 8, 8]] \<and>
      n = PIECES ! 0 \<and> cleared_rows b = 1 \<and> b' = swept b \<and>
      drop 18 b' = [[0, 0, 0, 0, 0, 0, 0, 0, 0, 0], [2, 2, 0, 0, 0, 0, 0, 0, 0, 0]] \<and>
      drop_piece game_under_attack 0 =
        Inr (game_under_attack\<lparr>board := b', score := 105,
               piece := Some (PIECES ! 0), nextPiece := Some n, pos_x := 3, pos_y := 0,
               gameOver := False, dropCounter := 0\<rparr>,
             [ScoreEvent 105, LinesClearedEvent 1, NextPieceEvent n, BoardUpdateEvent b']))"
proof -
  have ag: "addGarbage game_before_attack [0] = Inr game_under_attack"
    by (simp add: game_under_attack_def game_before_attack_def constructor_def createBoard_def
        ROWS_def COLS_def numeral_eq_Suc)
  have hit: "collide (board game_under_attack) (PIECES ! 1)
     (pos_x game_under_attack) (pos_y game_under_attack)"
    by code_simp
  have p: "piece game_under_attack = Some (PIECES ! 1)"
    and q: "nextPiece game_under_attack = Some (PIECES ! 0)"
    by (simp_all add: game_under_attack_def game_before_attack_def)
  have rows: "\<forall>r\<in>set (board game_under_attack). r \<noteq> []"
    by (auto simp: game_under_attack_def COLS_def ROWS_def)
  have inside: "piece_on_board (board game_under_attack) (PIECES ! 1)
                  (pos_x game_under_attack) (pos_y game_under_attack)"
    by code_simp
  have lock: "collide (board game_under_attack) (PIECES ! 1)
                (pos_x game_under_attack) (pos_y game_under_attack + 1)"
    by code_simp
  have v: "(0::real) \<le> 0" "(0::real) < 7" by simp_all
  from drop_lock_callback_order [OF p q rows inside lock v] obtain b n k b' where
    m: "merge (board game_under_attack) (PIECES ! 1)
          (pos_x game_under_attack) (pos_y game_under_attack) = Inr b"
    and n: "randomPiece 0 = Inr n" and k: "k = cleared_rows b" and b': "b' = swept b"
    and d: "drop_piece game_under_attack 0 =
             Inr (game_under_attack\<lparr>board := b', score := score game_under_attack + k * 10,
                    piece := Some (PIECES ! 0), nextPiece := Some n, pos_x := 3, pos_y := 0,
                    gameOver := (gameOver game_under_attack \<or> collide b' (PIECES ! 0) 3 0),
                    dropCounter := 0\<rparr>,
                  (if k > 0 then
                     (if onScore game_under_attack
                      then [ScoreEvent (score game_under_attack + k * 10)] else []) @
                     (if (score game_under_attack + k * 10) div 100 -
                           score game_under_attack div 100 > 0 \<and>
                         onLinesCleared game_under_attack
                      then [LinesClearedEvent ((score game_under_attack + k * 10) div 100 -
                                                 score game_under_attack div 100)]
                      else [])
                   else []) @
                  (if onNextPiece game_under_attack then [NextPieceEvent n] else []) @
                  (if collide b' (PIECES ! 0) 3 0 \<and> onGameOver game_under_attack
                   then [GameOverEvent] else []) @
                  (if onBoardUpdate game_under_attack then [BoardUpdateEvent b'] else []))"
    by blast
  have pos: "pos_x game_under_attack = 0" "pos_y game_under_attack = 18"
    by (simp_all add: game_under_attack_def game_before_attack_def)
  have mv: "merge (board game_under_attack) (PIECES ! 1) 0 18 =
            Inr (replicate 18 (replicate 10 0) @
                   [[2, 2, 0, 0, 0, 0, 0, 0, 0, 0], [2, 2, 8, 8, 8, 8, 8, 8, 8, 8]])"
    by code_simp
  have b: "b = replicate 18 (replicate 10 0) @
                 [[2, 2, 0, 0, 0, 0, 0, 0, 0, 0], [2, 2, 8, 8, 8, 8, 8, 8, 8, 8]]"
    using m mv pos by simp
  have m': "merge (board game_under_attack) (PIECES ! 1) 0 18 = Inr b" using m pos by simp
  have nv: "n = PIECES ! 0" using n by (simp add: randomPiece_def js_get_def PIECES_def)
  have kv: "cleared_rows b = 1" unfolding b by code_simp
  have sv: "swept b = replicate 19 (replicate 10 0) @ [[2, 2, 0, 0, 0, 0, 0, 0, 0, 0]]"
    unfolding b by code_simp
  have d18: "drop 18 b = [[2, 2, 0, 0, 0, 0, 0, 0, 0, 0], [2, 2, 8, 8, 8, 8, 8, 8, 8, 8]]"
    unfolding b by simp
  have d18': "drop 18 b' = [[0, 0, 0, 0, 0, 0, 0, 0, 0, 0], [2, 2, 0, 0, 0, 0, 0, 0, 0, 0]]"
    unfolding b' sv by (simp add: numeral_eq_Suc)
  have free: "\<not> collide b' (PIECES ! 0) 3 0" unfolding b' sv by code_simp
  have f: "score game_under_attack = 95" "onScore game_under_attack"
    "onLinesCleared game_under_attack" "onNextPiece game_under_attack"
    "onGameOver game_under_attack" "onBoardUpdate game_under_attack"
    "\<not> gameOver game_under_attack"
    by (simp_all add: game_under_attack_def game_before_attack_def constructor_def)
  have dv: "drop_piece game_under_attack 0 =
        Inr (game_under_attack\<lparr>board := b', score := 105,
               piece := Some (PIECES ! 0), nextPiece := Some n, pos_x := 3, pos_y := 0,
               gameOver := False, dropCounter := 0\<rparr>,
             [ScoreEvent 105, LinesClearedEvent 1, NextPieceEvent n, BoardUpdateEvent b'])"
    using d k kv free f by simp
  have "\<exists>b n b'.
      merge (board game_under_attack) (PIECES ! 1) 0 18 = Inr b \<and>
      drop 18 b = [[2, 2, 0, 0, 0, 0, 0, 0, 0, 0], [2, 2, 8, 8, 8, 8, 8, 8, 8, 8]] \<and>
      n = PIECES ! 0 \<and> cleared_rows b = 1 \<and> b' = swept b \<and>
      drop 18 b' = [[0, 0, 0, 0, 0, 0, 0, 0, 0, 0], [2, 2, 0, 0, 0, 0, 0, 0, 0, 0]] \<and>
      drop_piece game_under_attack 0 =
        Inr (game_under_attack\<lparr>board := b', score := 105,
               piece := Some (PIECES ! 0), nextPiece := Some n, pos_x := 3, pos_y := 0,
               gameOver := False, dropCounter := 0\<rparr>,
             [ScoreEvent 105, LinesClearedEvent 1, NextPieceEvent n, BoardUpdateEvent b'])"
    using m' d18 nv kv b' d18' dv by blast
  with ag hit show ?thesis by (intro conjI)
qed

subsection \<open>Rotation with wall kick\<close>

text \<open>
  On a square matrix the two swap loops of \<open>_rotateMatrix\<close> transpose it; the reversal
  then makes the quarter turn.
\<close>

lemma square_sq: "square m \<longleftrightarrow> sq (length m) m"
  by (auto simp: square_def sq_def all_set_conv_all_nth)

lemma swap_cells_sq:
  assumes "sq n m" "x < n" "y < n" "x \<noteq> y"
  shows "\<exists>m'. swap_cells m x y = Inr m' \<and> sq n m' \<and>
           (\<forall>i<n. \<forall>j<n. m' ! i ! j =
              (if i = x \<and> j = y then m ! y ! x
               else if i = y \<and> j = x then m ! x ! y else m ! i ! j))"
proof -
  let ?m1 = "m[x := (m ! x)[y := m ! y ! x]]"
  let ?m2 = "?m1[y := (?m1 ! y)[x := m ! x ! y]]"
  have len: "length m = n" "\<And>i. i < n \<Longrightarrow> length (m ! i) = n"
    using assms(1) by (simp_all add: sq_def)
  have s: "swap_cells m x y = Inr ?m2"
    using assms len by (simp add: swap_cells_def Let_def)
  have "sq n ?m2"
    using assms len by (auto simp: sq_def nth_list_update)
  moreover have "\<forall>i<n. \<forall>j<n. ?m2 ! i ! j =
              (if i = x \<and> j = y then m ! y ! x
               else if i = y \<and> j = x then m ! x ! y else m ! i ! j)"
    using assms len by (auto simp: nth_list_update)
  ultimately show ?thesis using s by blast
qed

lemma transpose_row_sq:
  assumes "sq n m" "y < n" "\<forall>x\<in>set xs. x < y" "distinct xs"
  shows "\<exists>m'. transpose_row m y xs = Inr m' \<and> sq n m' \<and>
           (\<forall>i<n. \<forall>j<n. m' ! i ! j =
              (if (i = y \<and> j \<in> set xs) \<or> (j = y \<and> i \<in> set xs) then m ! j ! i else m ! i ! j))"
  using assms
proof (induction xs arbitrary: m)
  case Nil
  then show ?case by simp
next
  case (Cons x xs)
  have x: "x < n" "x \<noteq> y" "x < y" using Cons.prems by auto
  from swap_cells_sq [OF Cons.prems(1) x(1) Cons.prems(2) x(2)] obtain m1 where
    s: "swap_cells m x y = Inr m1" and sq1: "sq n m1"
    and c1: "\<And>i j. i < n \<Longrightarrow> j < n \<Longrightarrow> m1 ! i ! j =
              (if i = x \<and> j = y then m ! y ! x
               else if i = y \<and> j = x then m ! x ! y else m ! i ! j)"
    by blast
  have "\<forall>x\<in>set xs. x < y" "distinct xs" using Cons.prems by auto
  from Cons.IH [OF sq1 Cons.prems(2) this] obtain m' where
    t: "transpose_row m1 y xs = Inr m'" and sq': "sq n m'"
    and c: "\<And>i j. i < n \<Longrightarrow> j < n \<Longrightarrow> m' ! i ! j =
              (if (i = y \<and> j \<in> set xs) \<or> (j = y \<and> i \<in> set xs) then m1 ! j ! i else m1 ! i ! j)"
    by blast
  have xs: "x \<notin> set xs" "y \<notin> set xs" using Cons.prems by auto
  have "\<forall>i<n. \<forall>j<n. m' ! i ! j =
              (if (i = y \<and> j \<in> set (x # xs)) \<or> (j = y \<and> i \<in> set (x # xs))
               then m ! j ! i else m ! i ! j)"
  proof (intro allI impI)
    fix i j assume ij: "i < n" "j < n"
    show "m' ! i ! j =
              (if (i = y \<and> j \<in> set (x # xs)) \<or> (j = y \<and> i \<in> set (x # xs))
               then m ! j ! i else m ! i ! j)"
      using c [OF ij] c1 [OF ij] c1 [OF ij(2) ij(1)] xs x by auto
  qed
  then show ?case using s t sq' by simp
qed

lemma transpose_rows_sq:
  assumes "sq n m" "\<forall>y\<in>set ys. y < n" "distinct ys"
  shows "\<exists>m'. transpose_rows m ys = Inr m' \<and> sq n m' \<and>
           (\<forall>i<n. \<forall>j<n. m' ! i ! j = (if max i j \<in> set ys then m ! j ! i else m ! i ! j))"
  using assms
proof (induction ys arbitrary: m)
  case Nil
  then show ?case by simp
next
  case (Cons y ys)
  have y: "y < n" using Cons.prems by simp
  have "\<forall>x\<in>set [0..<y]. x < y" "distinct [0..<y]" by simp_all
  from transpose_row_sq [OF Cons.prems(1) y this] obtain m1 where
    r: "transpose_row m y [0..<y] = Inr m1" and sq1: "sq n m1"
    and c1: "\<And>i j. i < n \<Longrightarrow> j < n \<Longrightarrow> m1 ! i ! j =
              (if (i = y \<and> j \<in> set [0..<y]) \<or> (j = y \<and> i \<in> set [0..<y])
               then m ! j ! i else m ! i ! j)"
    by blast
  have "\<forall>y\<in>set ys. y < n" "distinct ys" using Cons.prems by auto
  from Cons.IH [OF sq1 this] obtain m' where
    t: "transpose_rows m1 ys = Inr m'" and sq': "sq n m'"
    and c: "\<And>i j. i < n \<Longrightarrow> j < n \<Longrightarrow> m' ! i ! j =
              (if max i j \<in> set ys then m1 ! j ! i else m1 ! i ! j)"
    by blast
  have ys: "y \<notin> set ys" using Cons.prems by simp
  have "\<forall>i<n. \<forall>j<n. m' ! i ! j = (if max i j \<in> set (y # ys) then m ! j ! i else m ! i ! j)"
  proof (intro allI impI)
    fix i j assume ij: "i < n" "j < n"
    show "m' ! i ! j = (if max i j \<in> set (y # ys) then m ! j ! i else m ! i ! j)"
      using c [OF ij] c1 [OF ij] c1 [OF ij(2) ij(1)] ys
      by (auto simp: max_def split: if_splits)
  qed
  then show ?case using r t sq' by simp
qed

lemma rotateMatrix_sq:
  assumes "sq n m"
  shows "\<exists>m'. rotateMatrix m dir = Inr m' \<and> sq n m' \<and>
           (\<forall>i<n. \<forall>j<n. m' ! i ! j =
              (if dir > 0 then m ! (n - 1 - j) ! i else m ! j ! (n - 1 - i)))"
proof -
  have n: "length m = n" using assms by (simp add: sq_def)
  have "\<forall>y\<in>set [0..<length m]. y < n" "distinct [0..<length m]" using n by simp_all
  from transpose_rows_sq [OF assms this] obtain t where
    t: "transpose_rows m [0..<length m] = Inr t" and sqt: "sq n t"
    and c: "\<And>i j. i < n \<Longrightarrow> j < n \<Longrightarrow> t ! i ! j = m ! j ! i"
    using n by (auto simp: max_def)
  have lt: "length t = n" "\<And>i. i < n \<Longrightarrow> length (t ! i) = n"
    using sqt by (simp_all add: sq_def)
  show ?thesis
  proof (cases "dir > 0")
    case True
    have "sq n (map rev t)" using lt by (simp add: sq_def)
    moreover have "\<forall>i<n. \<forall>j<n. map rev t ! i ! j = m ! (n - 1 - j) ! i"
      using lt c by (simp add: rev_nth)
    ultimately show ?thesis using t True by (simp add: rotateMatrix_def)
  next
    case False
    have "sq n (rev t)" using lt by (simp add: sq_def rev_nth)
    moreover have "\<forall>i<n. \<forall>j<n. rev t ! i ! j = m ! j ! (n - 1 - i)"
      using lt c by (simp add: rev_nth)
    ultimately show ?thesis using t False by (simp add: rotateMatrix_def)
  qed
qed

lemma sq_cells_eq:
  assumes "sq n a" "sq n b" "\<And>i j. i < n \<Longrightarrow> j < n \<Longrightarrow> a ! i ! j = b ! i ! j"
  shows "a = b"
proof (rule nth_equalityI)
  show "length a = length b" using assms(1,2) by (simp add: sq_def)
next
  fix i assume "i < length a"
  then have i: "i < n" using assms(1) by (simp add: sq_def)
  show "a ! i = b ! i"
  proof (rule nth_equalityI)
    show "length (a ! i) = length (b ! i)" using assms(1,2) i by (simp add: sq_def)
  next
    fix j assume "j < length (a ! i)"
    then have "j < n" using assms(1) i by (simp add: sq_def)
    then show "a ! i ! j = b ! i ! j" using assms(3) i by simp
  qed
qed

lemma rotateMatrix_back:
  assumes "sq n m" "dir \<noteq> 0" "rotateMatrix m dir = Inr m'"
  shows "rotateMatrix m' (- dir) = Inr m"
proof -
  from rotateMatrix_sq [OF assms(1), of dir] assms(3) have sq': "sq n m'"
    and c': "\<And>i j. i < n \<Longrightarrow> j < n \<Longrightarrow> m' ! i ! j =
              (if dir > 0 then m ! (n - 1 - j) ! i else m ! j ! (n - 1 - i))"
    by auto
  from rotateMatrix_sq [OF sq', of "- dir"] obtain m2 where
    r: "rotateMatrix m' (- dir) = Inr m2" and sq2: "sq n m2"
    and c2: "\<And>i j. i < n \<Longrightarrow> j < n \<Longrightarrow> m2 ! i ! j =
              (if - dir > 0 then m' ! (n - 1 - j) ! i else m' ! j ! (n - 1 - i))"
    by blast
  have "m2 = m"
  proof (rule sq_cells_eq [OF sq2 assms(1)])
    fix i j assume ij: "i < n" "j < n"
    then have k: "n - 1 - i < n" "n - 1 - j < n" "n - 1 - (n - 1 - i) = i" "n - 1 - (n - 1 - j) = j"
      by auto
    show "m2 ! i ! j = m ! i ! j"
    proof (cases "dir > 0")
      case True
      then show ?thesis using c2 [OF ij] c' [OF ij(2) k(1)] k by simp
    next
      case False
      then have "- dir > 0" using assms(2) by simp
      then show ?thesis using False c2 [OF ij] c' [OF k(2) ij(1)] k by simp
    qed
  qed
  with r show ?thesis by simp
qed


lemma pieces_square: "\<forall>p\<in>set PIECES. square p"
  by (simp add: PIECES_def square_def)

lemma rotateMatrix_square:
  assumes "square m" "rotateMatrix m dir = Inr m'"
  shows "square m'" and "length m' = length m"
proof -
  from rotateMatrix_sq [of "length m" m dir] assms have s: "sq (length m) m'"
    by (auto simp: square_sq)
  then show l: "length m' = length m" by (simp add: sq_def)
  from s show "square m'" unfolding square_sq l .
qed

lemma rotate_loop_free:
  "rotate_loop brd p px py offset = Placed px' \<Longrightarrow> \<not> collide brd p px' py"
proof (induction brd p px py offset rule: rotate_loop.induct)
  case (1 brd p px py offset)
  show ?case
  proof (cases "collide brd p px py")
    case False
    then show ?thesis using "1.prems" by simp
  next
    case True
    let ?o = "- (offset + (if offset > 0 then 1 else - 1))"
    have nr: "\<not> ?o > int (length (p ! 0))"
      using True "1.prems" by (auto simp: Let_def split: if_splits)
    then have "rotate_loop brd p (px + offset) py ?o = Placed px'"
      using True "1.prems" by (simp add: Let_def)
    from "1.IH" [OF True refl refl nr this] show ?thesis .
  qed
qed

lemma rotate_loop_near:
  assumes "rotate_loop brd p px py offset = Placed px'"
    and "1 \<le> int (length (p ! 0))"
    and "\<exists>k\<ge>0. (offset = 2 * k + 1 \<and> px - x0 = - k \<or> offset = - (2 * k + 2) \<and> px - x0 = k + 1) \<and>
               (k = 0 \<or> 2 * k + 1 \<le> int (length (p ! 0)))"
  shows "\<bar>px' - x0\<bar> \<le> int (length (p ! 0))"
  using assms
proof (induction brd p px py offset rule: rotate_loop.induct)
  case (1 brd p px py offset)
  from "1.prems"(3) obtain k where k: "k \<ge> 0"
    "offset = 2 * k + 1 \<and> px - x0 = - k \<or> offset = - (2 * k + 2) \<and> px - x0 = k + 1"
    "k = 0 \<or> 2 * k + 1 \<le> int (length (p ! 0))"
    by blast
  show ?case
  proof (cases "collide brd p px py")
    case False
    then have "px' = px" using "1.prems"(1) by simp
    then show ?thesis using k "1.prems"(2) by auto
  next
    case True
    let ?o = "- (offset + (if offset > 0 then 1 else - 1))"
    have nr: "\<not> ?o > int (length (p ! 0))"
      using True "1.prems"(1) by (auto simp: Let_def split: if_splits)
    then have rec: "rotate_loop brd p (px + offset) py ?o = Placed px'"
      using True "1.prems"(1) by (simp add: Let_def)
    have inv: "\<exists>k\<ge>0. (?o = 2 * k + 1 \<and> px + offset - x0 = - k \<or>
                      ?o = - (2 * k + 2) \<and> px + offset - x0 = k + 1) \<and>
               (k = 0 \<or> 2 * k + 1 \<le> int (length (p ! 0)))"
    proof (cases "offset > 0")
      case True
      then have "?o = - (2 * k + 2) \<and> px + offset - x0 = k + 1" using k by auto
      then show ?thesis using k by blast
    next
      case False
      then have o: "offset = - (2 * k + 2)" "px - x0 = k + 1" using k(1,2) by arith+
      have "?o = - (offset - 1)" using False by simp
      then have oeq: "?o = 2 * (k + 1) + 1" using o by simp
      have "px + offset - x0 = - (k + 1)" using o by simp
      with oeq have "?o = 2 * (k + 1) + 1 \<and> px + offset - x0 = - (k + 1)" by simp
      moreover have "2 * (k + 1) + 1 \<le> int (length (p ! 0))" using nr oeq by linarith
      moreover have "k + 1 \<ge> 0" using k by simp
      ultimately show ?thesis by blast
    qed
    from "1.IH" [OF True refl refl nr rec "1.prems"(2) inv] show ?thesis .
  qed
qed

lemma collide_nonempty: "collide brd p ox oy \<Longrightarrow> p \<noteq> []"
  by (auto simp: collide_def)

text \<open>
  C6. For every game whose piece is a square matrix (as the seven pieces are, and a
  rotated square matrix is square again) and every direction other than 0, \<open>rotate\<close>
  returns, and either the piece is the rotated matrix at a column where it does not
  collide, no more than the piece's width away from the column before, and nothing else
  has changed, or the game is exactly as it was: the matrix rotated back to its value
  and the column restored.
\<close>

theorem rotate_kicks_or_reverts:
  assumes p: "piece g = Some p" and s: "square p" and d: "dir \<noteq> 0"
  shows "\<exists>g'. rotate_piece g dir = Inr g' \<and>
           ((\<exists>p' px. rotateMatrix p dir = Inr p' \<and> square p' \<and>
                      g' = g\<lparr>piece := Some p', pos_x := px\<rparr> \<and>
                      \<not> collide (board g) p' px (pos_y g) \<and>
                      \<bar>px - pos_x g\<bar> \<le> int (length (p' ! 0))) \<or>
            g' = g)"
proof -
  let ?n = "length p"
  have sqp: "sq ?n p" using s by (simp add: square_sq)
  from rotateMatrix_sq [OF sqp, of dir] obtain p' where
    r: "rotateMatrix p dir = Inr p'" and sq': "sq ?n p'"
    by blast
  show ?thesis
  proof (cases "rotate_loop (board g) p' (pos_x g) (pos_y g) 1")
    case (Placed px)
    have free: "\<not> collide (board g) p' px (pos_y g)"
      using Placed by (rule rotate_loop_free)
    have near: "\<bar>px - pos_x g\<bar> \<le> int (length (p' ! 0))"
    proof (cases "collide (board g) p' (pos_x g) (pos_y g)")
      case False
      then have "px = pos_x g" using Placed by simp
      then show ?thesis by simp
    next
      case True
      then have "p' \<noteq> []" by (rule collide_nonempty)
      moreover have "length p' = ?n" using sq' by (simp add: sq_def)
      ultimately have "0 < ?n" by auto
      moreover from this have "length (p' ! 0) = ?n" using sq' by (simp add: sq_def)
      ultimately have w: "1 \<le> int (length (p' ! 0))" by linarith
      have "\<exists>k\<ge>0. ((1::int) = 2 * k + 1 \<and> pos_x g - pos_x g = - k \<or>
                     1 = - (2 * k + 2) \<and> pos_x g - pos_x g = k + 1) \<and>
               (k = 0 \<or> 2 * k + 1 \<le> int (length (p' ! 0)))"
        by (rule exI [of _ 0]) simp
      from rotate_loop_near [OF Placed w this] show ?thesis .
    qed
    have "rotate_piece g dir = Inr (g\<lparr>piece := Some p', pos_x := px\<rparr>)"
      using p r Placed by (simp add: rotate_piece_def)
    moreover have "square p'" using s r by (rule rotateMatrix_square)
    ultimately show ?thesis using r free near by blast
  next
    case Reverted
    have "rotateMatrix p' (- dir) = Inr p" using sqp d r by (rule rotateMatrix_back)
    then have "rotate_piece g dir = Inr (g\<lparr>piece := Some p, pos_x := pos_x g\<rparr>)"
      using p r Reverted by (simp add: rotate_piece_def)
    moreover have "g\<lparr>piece := Some p, pos_x := pos_x g\<rparr> = g" using p by simp
    ultimately show ?thesis by simp
  qed
qed


theorem rotate_kicks_or_reverts_witness:
  "(\<exists>g'. rotate_piece game_at_wall 1 = Inr g' \<and>
      ((\<exists>p' px. rotateMatrix (PIECES ! 4) 1 = Inr p' \<and> square p' \<and>
                 g' = game_at_wall\<lparr>piece := Some p', pos_x := px\<rparr> \<and>
                 \<not> collide (board game_at_wall) p' px (pos_y game_at_wall) \<and>
                 \<bar>px - pos_x game_at_wall\<bar> \<le> int (length (p' ! 0))) \<or>
       g' = game_at_wall)) \<and>
   rotate_piece game_at_wall 1 =
     Inr (game_at_wall\<lparr>piece := Some [[0, 0, 0, 0], [5, 5, 5, 5], [0, 0, 0, 0], [0, 0, 0, 0]],
                        pos_x := 0\<rparr>) \<and>
   (\<exists>g'. rotate_piece game_in_well 1 = Inr g' \<and>
      ((\<exists>p' px. rotateMatrix (PIECES ! 4) 1 = Inr p' \<and> square p' \<and>
                 g' = game_in_well\<lparr>piece := Some p', pos_x := px\<rparr> \<and>
                 \<not> collide (board game_in_well) p' px (pos_y game_in_well) \<and>
                 \<bar>px - pos_x game_in_well\<bar> \<le> int (length (p' ! 0))) \<or>
       g' = game_in_well)) \<and>
   rotate_piece game_in_well 1 = Inr game_in_well"
proof -
  have s: "square (PIECES ! 4)" by (simp add: square_def PIECES_def)
  have d: "(1::int) \<noteq> 0" by simp
  have p1: "piece game_at_wall = Some (PIECES ! 4)" by (simp add: game_at_wall_def)
  have p2: "piece game_in_well = Some (PIECES ! 4)" by (simp add: game_in_well_def)
  have k: "rotate_piece game_at_wall 1 =
     Inr (game_at_wall\<lparr>piece := Some [[0, 0, 0, 0], [5, 5, 5, 5], [0, 0, 0, 0], [0, 0, 0, 0]],
                        pos_x := 0\<rparr>)"
    by code_simp
  have r: "rotate_piece game_in_well 1 = Inr game_in_well" by code_simp
  show ?thesis
    using rotate_kicks_or_reverts [OF p1 s d] rotate_kicks_or_reverts [OF p2 s d] k r
    by (intro conjI) assumption+
qed

section \<open>Properties of the duel rooms\<close>

lemma findPlayerRoom_member:
  "findPlayerRoom rs sid = Some (roomId, r) \<Longrightarrow> map_of (d_players r) sid \<noteq> None"
  by (induction rs) (auto split: if_splits)

lemma findPlayerRoom_store:
  assumes "findPlayerRoom rs sid = Some (roomId, r)" and "d_players r' = d_players r"
  shows "findPlayerRoom (store_room roomId r' rs) sid = Some (roomId, r')"
  using assms
proof (induction rs)
  case Nil
  then show ?case by simp
next
  case (Cons x rs)
  obtain k old where x: "x = (k, old)" by (cases x)
  show ?case
  proof (cases "map_of (d_players old) sid \<noteq> None")
    case True
    then have "k = roomId" "old = r" using Cons.prems(1) x by auto
    then show ?thesis using x True Cons.prems(2) by (simp add: store_room_def)
  next
    case False
    then have "findPlayerRoom rs sid = Some (roomId, r)" using Cons.prems(1) x by simp
    from Cons.IH [OF this Cons.prems(2)] have
      ih: "findPlayerRoom (store_room roomId r' rs) sid = Some (roomId, r')" .
    have m: "map_of (d_players r') sid \<noteq> None"
      using findPlayerRoom_member [OF Cons.prems(1)] Cons.prems(2) by simp
    show ?thesis
    proof (cases "k = roomId")
      case True
      then show ?thesis using x m by (simp add: store_room_def)
    next
      case neq: False
      then show ?thesis using x False ih by (simp add: store_room_def)
    qed
  qed
qed

lemma store_room_keys: "map fst (store_room roomId r' rs) = map fst rs"
  by (induction rs) (auto simp: store_room_def)

lemma store_room_other: "k \<noteq> roomId \<Longrightarrow> map_of (store_room roomId r' rs) k = map_of rs k"
  by (induction rs) (auto simp: store_room_def)

text \<open>
  C9. In a duel room with the two roster members \<open>a\<close> and \<open>b\<close>, a \<open>game_over\<close> report
  of either of them, whatever value it carries, makes the other one the winner: the
  database gets a win for that user and the winner message names the winner. After
  the report the room that the store holds for the two members has the winner's tally
  one higher than before, all other tallies, the roster and the status as before; the
  other rooms of the store are untouched. A reset that follows (asked by either
  member) sends \<open>game_reset\<close> and then \<open>game_ready\<close> with a seed made in the handler,
  the floor of the value \<open>v\<close> of \<open>Math.random() * 2147483647\<close>, and afterwards the room
  that the store holds for the two members is that room with status \<open>playing\<close>.
\<close>

theorem duel_game_over_and_reset:
  assumes find: "findPlayerRoom rs sid = Some (roomId, r)"
    and find2: "findPlayerRoom rs sid2 = Some (roomId, r)"
    and roster: "d_players r = [(a, pa), (b, pb)]"
    and ids: "a \<noteq> b" "a \<noteq> []" "b \<noteq> []"
    and over: "a_type data = ''game_over''"
  shows "\<exists>rs' r' w wu rs''.
           game_action rs sid data =
             Inr (rs', [RelayToOthers roomId sid data, DbAddWin (d_userId wu),
                        WinnerMessage (d_username wu) (d_username pa) (wins r' a)
                                                      (d_username pb) (wins r' b)]) \<and>
           (w, wu) = (if sid = a then (b, pb) else (a, pa)) \<and> w \<noteq> sid \<and>
           findPlayerRoom rs' sid = Some (roomId, r') \<and>
           findPlayerRoom rs' sid2 = Some (roomId, r') \<and>
           wins r' w = wins r w + 1 \<and> (\<forall>k. k \<noteq> w \<longrightarrow> wins r' k = wins r k) \<and>
           d_players r' = d_players r \<and> d_status r' = d_status r \<and>
           map fst rs' = map fst rs \<and> (\<forall>k. k \<noteq> roomId \<longrightarrow> map_of rs' k = map_of rs k) \<and>
           game_reset rs' sid2 v =
             (rs'', [GameReset roomId, GameReady roomId \<lfloor>v\<rfloor>, ResetMessage roomId]) \<and>
           findPlayerRoom rs'' sid = Some (roomId, r'\<lparr>d_status := Playing\<rparr>) \<and>
           findPlayerRoom rs'' sid2 = Some (roomId, r'\<lparr>d_status := Playing\<rparr>) \<and>
           map fst rs'' = map fst rs \<and> (\<forall>k. k \<noteq> roomId \<longrightarrow> map_of rs'' k = map_of rs k)"
proof -
  have mem: "sid = a \<or> sid = b"
    using findPlayerRoom_member [OF find] roster by (auto split: if_splits)
  define w where "w = (if sid = a then b else a)"
  define wu where "wu = (if sid = a then pb else pa)"
  define r' where "r' = r\<lparr>d_scores := (d_scores r)(w \<mapsto> wins r w + 1)\<rparr>"
  define rs' where "rs' = store_room roomId r' rs"
  define rs'' where "rs'' = store_room roomId (r'\<lparr>d_status := Playing\<rparr>) rs'"
  have f: "find (\<lambda>k. k \<noteq> sid) (map fst (d_players r)) = Some w"
    using mem roster ids by (auto simp: w_def)
  have wne: "w \<noteq> []" "w \<noteq> sid" using mem ids by (auto simp: w_def)
  have mw: "map_of (d_players r) w = Some wu"
    using roster ids by (auto simp: w_def wu_def)
  have 1: "game_action rs sid data =
             Inr (rs', [RelayToOthers roomId sid data, DbAddWin (d_userId wu),
                        WinnerMessage (d_username wu) (d_username pa) (wins r' a)
                                                      (d_username pb) (wins r' b)])"
    using find over f wne mw roster by (simp add: game_action_def Let_def r'_def rs'_def)
  have 2: "(w, wu) = (if sid = a then (b, pb) else (a, pa))" by (simp add: w_def wu_def)
  have pl: "d_players r' = d_players r" by (simp add: r'_def)
  have st: "d_status r' = d_status r" by (simp add: r'_def)
  have 3: "findPlayerRoom rs' sid = Some (roomId, r')"
    unfolding rs'_def using find pl by (rule findPlayerRoom_store)
  have 4: "findPlayerRoom rs' sid2 = Some (roomId, r')"
    unfolding rs'_def using find2 pl by (rule findPlayerRoom_store)
  have 5: "wins r' w = wins r w + 1" by (simp add: r'_def wins_def)
  have 6: "\<forall>k. k \<noteq> w \<longrightarrow> wins r' k = wins r k" by (simp add: r'_def wins_def)
  have 7: "map fst rs' = map fst rs" unfolding rs'_def by (rule store_room_keys)
  have 8: "\<forall>k. k \<noteq> roomId \<longrightarrow> map_of rs' k = map_of rs k"
    unfolding rs'_def by (simp add: store_room_other)
  have 9: "game_reset rs' sid2 v =
             (rs'', [GameReset roomId, GameReady roomId \<lfloor>v\<rfloor>, ResetMessage roomId])"
    using 4 by (simp add: game_reset_def Let_def rs''_def)
  have pl2: "d_players (r'\<lparr>d_status := Playing\<rparr>) = d_players r'" by simp
  have 10: "findPlayerRoom rs'' sid = Some (roomId, r'\<lparr>d_status := Playing\<rparr>)"
    unfolding rs''_def using 3 pl2 by (rule findPlayerRoom_store)
  have 11: "findPlayerRoom rs'' sid2 = Some (roomId, r'\<lparr>d_status := Playing\<rparr>)"
    unfolding rs''_def using 4 pl2 by (rule findPlayerRoom_store)
  have 12: "map fst rs'' = map fst rs" unfolding rs''_def using 7 by (simp add: store_room_keys)
  have 13: "\<forall>k. k \<noteq> roomId \<longrightarrow> map_of rs'' k = map_of rs k"
    unfolding rs''_def using 8 by (simp add: store_room_other)
  have "game_action rs sid data =
             Inr (rs', [RelayToOthers roomId sid data, DbAddWin (d_userId wu),
                        WinnerMessage (d_username wu) (d_username pa) (wins r' a)
                                                      (d_username pb) (wins r' b)]) \<and>
           (w, wu) = (if sid = a then (b, pb) else (a, pa)) \<and> w \<noteq> sid \<and>
           findPlayerRoom rs' sid = Some (roomId, r') \<and>
           findPlayerRoom rs' sid2 = Some (roomId, r') \<and>
           wins r' w = wins r w + 1 \<and> (\<forall>k. k \<noteq> w \<longrightarrow> wins r' k = wins r k) \<and>
           d_players r' = d_players r \<and> d_status r' = d_status r \<and>
           map fst rs' = map fst rs \<and> (\<forall>k. k \<noteq> roomId \<longrightarrow> map_of rs' k = map_of rs k) \<and>
           game_reset rs' sid2 v =
             (rs'', [GameReset roomId, GameReady roomId \<lfloor>v\<rfloor>, ResetMessage roomId]) \<and>
           findPlayerRoom rs'' sid = Some (roomId, r'\<lparr>d_status := Playing\<rparr>) \<and>
           findPlayerRoom rs'' sid2 = Some (roomId, r'\<lparr>d_status := Playing\<rparr>) \<and>
           map fst rs'' = map fst rs \<and> (\<forall>k. k \<noteq> roomId \<longrightarrow> map_of rs'' k = map_of rs k)"
    using 1 2 wne(2) 3 4 5 6 pl st 7 8 9 10 11 12 13 by (intro conjI)
  then show ?thesis
    by (intro exI [of _ rs''] exI [of _ wu] exI [of _ w] exI [of _ r'] exI [of _ rs'])
qed

theorem duel_game_over_and_reset_witness:
  "\<exists>rs' r' rs''.
     game_action duel_store ''sa'' \<lparr>a_type = ''game_over'', a_value = NumberValue 999\<rparr> =
       Inr (rs', [RelayToOthers ''r1'' ''sa'' \<lparr>a_type = ''game_over'', a_value = NumberValue 999\<rparr>,
                  DbAddWin 2, WinnerMessage ''bob'' ''ann'' 0 ''bob'' 1]) \<and>
     findPlayerRoom rs' ''sb'' = Some (''r1'', r') \<and>
     wins duel_room_ab ''sb'' = 0 \<and> wins r' ''sb'' = 1 \<and> wins r' ''sa'' = 0 \<and>
     d_status r' = Waiting \<and>
     game_reset rs' ''sb'' (2147483647 / 2) =
       (rs'', [GameReset ''r1'', GameReady ''r1'' 1073741823, ResetMessage ''r1'']) \<and>
     findPlayerRoom rs'' ''sa'' = Some (''r1'', r'\<lparr>d_status := Playing\<rparr>) \<and>
     d_status (r'\<lparr>d_status := Playing\<rparr>) = Playing"
proof -
  have find: "findPlayerRoom duel_store ''sa'' = Some (''r1'', duel_room_ab)"
    and find2: "findPlayerRoom duel_store ''sb'' = Some (''r1'', duel_room_ab)"
    by (simp_all add: duel_store_def duel_room_ab_def)
  have roster: "d_players duel_room_ab =
                  [(''sa'', \<lparr>d_userId = 1, d_username = ''ann''\<rparr>),
                   (''sb'', \<lparr>d_userId = 2, d_username = ''bob''\<rparr>)]"
    by (simp add: duel_room_ab_def)
  have ids: "''sa'' \<noteq> ''sb''" "''sa'' \<noteq> []" "''sb'' \<noteq> []" by simp_all
  have over: "a_type \<lparr>a_type = ''game_over'', a_value = NumberValue 999\<rparr> = ''game_over''"
    by simp
  have sd: "\<lfloor>2147483647 / 2 :: real\<rfloor> = 1073741823" by (simp add: floor_eq_iff)
  have w0: "wins duel_room_ab ''sb'' = 0" "wins duel_room_ab ''sa'' = 0"
    "d_status duel_room_ab = Waiting"
    by (simp_all add: wins_def duel_room_ab_def)
  from duel_game_over_and_reset [OF find find2 roster ids over, of "2147483647 / 2"]
  obtain rs' r' w wu rs'' where
    ga: "game_action duel_store ''sa'' \<lparr>a_type = ''game_over'', a_value = NumberValue 999\<rparr> =
           Inr (rs', [RelayToOthers ''r1'' ''sa''
                        \<lparr>a_type = ''game_over'', a_value = NumberValue 999\<rparr>,
                      DbAddWin (d_userId wu),
                      WinnerMessage (d_username wu)
                        (d_username \<lparr>d_userId = 1, d_username = ''ann''\<rparr>) (wins r' ''sa'')
                        (d_username \<lparr>d_userId = 2, d_username = ''bob''\<rparr>) (wins r' ''sb'')])"
    and w: "(w, wu) = (if ''sa'' = ''sa'' then (''sb'', \<lparr>d_userId = 2, d_username = ''bob''\<rparr>)
                       else (''sa'', \<lparr>d_userId = 1, d_username = ''ann''\<rparr>))"
    and f: "findPlayerRoom rs' ''sb'' = Some (''r1'', r')"
    and t: "wins r' w = wins duel_room_ab w + 1"
      "\<forall>k. k \<noteq> w \<longrightarrow> wins r' k = wins duel_room_ab k"
    and st: "d_status r' = d_status duel_room_ab"
    and gr: "game_reset rs' ''sb'' (2147483647 / 2) =
               (rs'', [GameReset ''r1'', GameReady ''r1'' \<lfloor>2147483647 / 2 :: real\<rfloor>,
                       ResetMessage ''r1''])"
    and f2: "findPlayerRoom rs'' ''sa'' = Some (''r1'', r'\<lparr>d_status := Playing\<rparr>)"
    by (elim exE conjE) (rule that; assumption)
  from w have wv: "w = ''sb''" "wu = \<lparr>d_userId = 2, d_username = ''bob''\<rparr>" by simp_all
  have t1: "wins r' ''sb'' = 1" using t(1) wv w0 by simp
  have t2: "wins r' ''sa'' = 0" using t(2) wv w0 by simp
  have ga': "game_action duel_store ''sa'' \<lparr>a_type = ''game_over'', a_value = NumberValue 999\<rparr> =
       Inr (rs', [RelayToOthers ''r1'' ''sa'' \<lparr>a_type = ''game_over'', a_value = NumberValue 999\<rparr>,
                  DbAddWin 2, WinnerMessage ''bob'' ''ann'' 0 ''bob'' 1])"
    using ga wv t1 t2 by simp
  have st': "d_status r' = Waiting" using st w0 by simp
  have gr': "game_reset rs' ''sb'' (2147483647 / 2) =
       (rs'', [GameReset ''r1'', GameReady ''r1'' 1073741823, ResetMessage ''r1''])"
    using gr unfolding sd .
  have pl: "d_status (r'\<lparr>d_status := Playing\<rparr>) = Playing" by simp
  have "game_action duel_store ''sa'' \<lparr>a_type = ''game_over'', a_value = NumberValue 999\<rparr> =
       Inr (rs', [RelayToOthers ''r1'' ''sa'' \<lparr>a_type = ''game_over'', a_value = NumberValue 999\<rparr>,
                  DbAddWin 2, WinnerMessage ''bob'' ''ann'' 0 ''bob'' 1]) \<and>
     findPlayerRoom rs' ''sb'' = Some (''r1'', r') \<and>
     wins duel_room_ab ''sb'' = 0 \<and> wins r' ''sb'' = 1 \<and> wins r' ''sa'' = 0 \<and>
     d_status r' = Waiting \<and>
     game_reset rs' ''sb'' (2147483647 / 2) =
       (rs'', [GameReset ''r1'', GameReady ''r1'' 1073741823, ResetMessage ''r1'']) \<and>
     findPlayerRoom rs'' ''sa'' = Some (''r1'', r'\<lparr>d_status := Playing\<rparr>) \<and>
     d_status (r'\<lparr>d_status := Playing\<rparr>) = Playing"
    using ga' f w0(1) t1 t2 st' gr' f2 pl by (intro conjI)
  then show ?thesis by (intro exI [of _ rs''] exI [of _ r'] exI [of _ rs'])
qed

section \<open>Properties of the battle rooms\<close>

subsection \<open>The target of an attack\<close>

lemma candidates_filter:
  "filter (\<lambda>(sid, p). sid \<noteq> a \<and> alive p) (players r) = candidates r a"
  by (simp add: candidates_def case_prod_unfold)

lemma remainder_Cons:
  "remainder ar (t # ts) rand (Suc k) = remainder ar ts (n_sub ar rand (weight ar t)) k"
  by (induction k) simp_all

lemma weighted_loop_Some:
  "weighted_loop ar ts rand = Some s \<Longrightarrow> \<exists>k. stops_at ar ts rand k \<and> s = fst (ts ! k)"
proof (induction ts arbitrary: rand)
  case Nil
  then show ?case by simp
next
  case (Cons t ts)
  obtain sid p where t: "t = (sid, p)" by (cases t)
  let ?r = "n_sub ar rand (weight ar t)"
  show ?case
  proof (cases "?r \<le> 0")
    case True
    then have "s = fst t" using Cons.prems t by (simp add: weight_def)
    moreover have "stops_at ar (t # ts) rand 0" using True by (simp add: stops_at_def)
    ultimately have "stops_at ar (t # ts) rand 0 \<and> s = fst ((t # ts) ! 0)" by simp
    then show ?thesis by (rule exI)
  next
    case False
    then have "weighted_loop ar ts ?r = Some s"
      using Cons.prems t by (simp add: weight_def)
    from Cons.IH [OF this] obtain k where k: "stops_at ar ts ?r k" "s = fst (ts ! k)" by blast
    have "\<forall>j<Suc k. 0 < remainder ar (t # ts) rand (Suc j)"
    proof (intro allI impI)
      fix j assume j: "j < Suc k"
      show "0 < remainder ar (t # ts) rand (Suc j)"
      proof (cases j)
        case 0
        then show ?thesis using False by simp
      next
        case (Suc i)
        then have "i < k" using j by simp
        then have "0 < remainder ar ts ?r (Suc i)" using k(1) by (simp add: stops_at_def)
        then show ?thesis unfolding Suc remainder_Cons [of ar t ts rand "Suc i"] .
      qed
    qed
    moreover have "remainder ar (t # ts) rand (Suc (Suc k)) \<le> 0"
      using k(1) unfolding remainder_Cons [of ar t ts rand "Suc k"] by (simp add: stops_at_def)
    moreover have "Suc k < length (t # ts)" using k(1) by (simp add: stops_at_def)
    ultimately have "stops_at ar (t # ts) rand (Suc k)" unfolding stops_at_def by blast
    moreover have "s = fst ((t # ts) ! Suc k)" using k(2) by simp
    ultimately have "stops_at ar (t # ts) rand (Suc k) \<and> s = fst ((t # ts) ! Suc k)" ..
    then show ?thesis by (rule exI)
  qed
qed

lemma weighted_loop_None:
  "weighted_loop ar ts rand = None \<Longrightarrow> \<forall>j<length ts. 0 < remainder ar ts rand (Suc j)"
proof (induction ts arbitrary: rand)
  case Nil
  then show ?case by simp
next
  case (Cons t ts)
  obtain sid p where t: "t = (sid, p)" by (cases t)
  let ?r = "n_sub ar rand (weight ar t)"
  have nt: "\<not> ?r \<le> 0" and rec: "weighted_loop ar ts ?r = None"
    using Cons.prems t by (auto simp: weight_def Let_def split: if_splits)
  show ?case
  proof (intro allI impI)
    fix j assume j: "j < length (t # ts)"
    show "0 < remainder ar (t # ts) rand (Suc j)"
    proof (cases j)
      case 0
      then show ?thesis using nt by simp
    next
      case (Suc i)
      then have "i < length ts" using j by simp
      then have "0 < remainder ar ts ?r (Suc i)" using Cons.IH [OF rec] by simp
      then show ?thesis unfolding Suc remainder_Cons [of ar t ts rand "Suc i"] .
    qed
  qed
qed

lemma stops_at_mem: "stops_at ar ts rand k \<Longrightarrow> fst (ts ! k) \<in> fst ` set ts"
  by (simp add: stops_at_def)

lemma candidates_ids:
  "fst ` set (candidates r a) = {sid. sid \<noteq> a \<and> (\<exists>p. (sid, p) \<in> set (players r) \<and> alive p)}"
proof (intro set_eqI iffI)
  fix sid assume "sid \<in> fst ` set (candidates r a)"
  then obtain t where "t \<in> set (players r)" "fst t \<noteq> a" "alive (snd t)" "sid = fst t"
    by (auto simp: candidates_def)
  then have "sid \<noteq> a \<and> (sid, snd t) \<in> set (players r) \<and> alive (snd t)" by simp
  then show "sid \<in> {sid. sid \<noteq> a \<and> (\<exists>p. (sid, p) \<in> set (players r) \<and> alive p)}" by blast
next
  fix sid assume "sid \<in> {sid. sid \<noteq> a \<and> (\<exists>p. (sid, p) \<in> set (players r) \<and> alive p)}"
  then obtain p where "(sid, p) \<in> set (players r)" "alive p" "sid \<noteq> a" by blast
  then have "(sid, p) \<in> set (candidates r a)" by (simp add: candidates_def)
  then show "sid \<in> fst ` set (candidates r a)" by (rule image_eqI [rotated]) simp
qed

lemma select_unfold:
  "selectAttackTarget ar r a u1 u2 =
     (if candidates r a = [] then Inr None
      else if u1 < double_0_7 then
        (case js_get (candidates r a) \<lfloor>n_mul ar u2 (real (length (candidates r a)))\<rfloor> of
           None \<Rightarrow> Inl TypeError
         | Some t \<Rightarrow> Inr (Some (fst t)))
      else
        (case weighted_loop ar (candidates r a)
                (n_mul ar u2 (total_weight ar (candidates r a))) of
           Some sid \<Rightarrow> Inr (Some sid)
         | None \<Rightarrow> Inr (Some (fst (last (candidates r a))))))"
  by (auto simp: selectAttackTarget_def candidates_filter Let_def total_weight_def
      last_conv_nth split: option.splits)

lemma select_none:
  assumes "candidates r a = []"
  shows "selectAttackTarget ar r a u1 u2 = Inr None"
    and "garbage_report ar r a n u1 u2 = Inr (r, [])"
proof -
  show s: "selectAttackTarget ar r a u1 u2 = Inr None" using assms by (simp add: select_unfold)
  show "garbage_report ar r a n u1 u2 = Inr (r, [])"
  proof (cases "get_player r a")
    case None
    then show ?thesis by (simp add: garbage_report_def)
  next
    case (Some pl)
    then show ?thesis using s by (simp add: garbage_report_def)
  qed
qed

lemma select_uniform:
  assumes "candidates r a \<noteq> []" and "u1 < double_0_7"
  shows "selectAttackTarget ar r a u1 u2 =
           (if 0 \<le> \<lfloor>n_mul ar u2 (real (length (candidates r a)))\<rfloor> \<and>
               \<lfloor>n_mul ar u2 (real (length (candidates r a)))\<rfloor> < int (length (candidates r a))
            then Inr (Some (fst (candidates r a !
                                   nat \<lfloor>n_mul ar u2 (real (length (candidates r a)))\<rfloor>)))
            else Inl TypeError)"
  using assms by (simp add: select_unfold js_get_def)

lemma select_weighted:
  assumes "candidates r a \<noteq> []" "\<not> u1 < double_0_7"
  shows "(\<exists>k. stops_at ar (candidates r a) (n_mul ar u2 (total_weight ar (candidates r a))) k \<and>
              selectAttackTarget ar r a u1 u2 = Inr (Some (fst (candidates r a ! k)))) \<or>
         ((\<forall>j<length (candidates r a).
             0 < remainder ar (candidates r a)
                   (n_mul ar u2 (total_weight ar (candidates r a))) (Suc j)) \<and>
          selectAttackTarget ar r a u1 u2 = Inr (Some (fst (last (candidates r a)))))"
proof (cases "weighted_loop ar (candidates r a) (n_mul ar u2 (total_weight ar (candidates r a)))")
  case None
  then show ?thesis
    using assms weighted_loop_None [OF None] by (simp add: select_unfold)
next
  case (Some s)
  from weighted_loop_Some [OF Some] obtain k where
    "stops_at ar (candidates r a) (n_mul ar u2 (total_weight ar (candidates r a))) k"
    "s = fst (candidates r a ! k)"
    by blast
  then show ?thesis using assms Some by (auto simp: select_unfold)
qed

lemma select_member:
  assumes "selectAttackTarget ar r a u1 u2 = Inr (Some t)"
  shows "t \<in> fst ` set (candidates r a)"
proof -
  let ?ts = "candidates r a"
  have ne: "?ts \<noteq> []" using assms by (auto simp: select_unfold split: if_splits)
  show ?thesis
  proof (cases "u1 < double_0_7")
    case True
    from assms select_uniform [OF ne True, of ar u2]
    have "0 \<le> \<lfloor>n_mul ar u2 (real (length ?ts))\<rfloor> \<and>
          \<lfloor>n_mul ar u2 (real (length ?ts))\<rfloor> < int (length ?ts)"
      and "t = fst (?ts ! nat \<lfloor>n_mul ar u2 (real (length ?ts))\<rfloor>)"
      by (auto split: if_splits)
    moreover from this(1) have "nat \<lfloor>n_mul ar u2 (real (length ?ts))\<rfloor> < length ?ts"
      by linarith
    ultimately show ?thesis by simp
  next
    case False
    from select_weighted [OF ne False, of ar u2] assms
    have "(\<exists>k. stops_at ar ?ts (n_mul ar u2 (total_weight ar ?ts)) k \<and> t = fst (?ts ! k)) \<or>
          t = fst (last ?ts)"
      by auto
    then show ?thesis
    proof
      assume "\<exists>k. stops_at ar ?ts (n_mul ar u2 (total_weight ar ?ts)) k \<and> t = fst (?ts ! k)"
      then show ?thesis using stops_at_mem by blast
    next
      assume "t = fst (last ?ts)"
      then show ?thesis using ne by simp
    qed
  qed
qed

lemma select_some:
  assumes ne: "candidates r a \<noteq> []"
    and idx: "u1 < double_0_7 \<longrightarrow>
                0 \<le> \<lfloor>n_mul ar u2 (real (length (candidates r a)))\<rfloor> \<and>
                \<lfloor>n_mul ar u2 (real (length (candidates r a)))\<rfloor> < int (length (candidates r a))"
  shows "\<exists>t\<in>fst ` set (candidates r a). selectAttackTarget ar r a u1 u2 = Inr (Some t)"
proof -
  have "\<exists>t. selectAttackTarget ar r a u1 u2 = Inr (Some t)"
  proof (cases "u1 < double_0_7")
    case True
    then show ?thesis using select_uniform [OF ne True, of ar u2] idx by simp
  next
    case False
    then show ?thesis using select_weighted [OF ne False, of ar u2] by blast
  qed
  then obtain t where t: "selectAttackTarget ar r a u1 u2 = Inr (Some t)" ..
  from select_member [OF t] t show ?thesis by (rule rev_bexI)
qed

lemma garbage_delivered:
  assumes s: "selectAttackTarget ar r a u1 u2 = Inr (Some t)" and pl: "get_player r a = Some pl"
    and t: "t \<noteq> []"
  shows "\<exists>tp. get_player r t = Some tp \<and>
            garbage_report ar r a n u1 u2 =
              Inr (r, [ReceiveGarbage t a (username pl) n,
                       AttackEvent (username pl) (username tp) n])"
proof -
  from select_member [OF s] obtain e where "e \<in> set (candidates r a)" "t = fst e" by blast
  then have "e \<in> set (players r)" by (simp add: candidates_def)
  then have "t \<in> fst ` set (players r)" using \<open>t = fst e\<close> by simp
  then have "map_of (players r) t \<noteq> None" by (simp add: map_of_eq_None_iff)
  then obtain tp where tp: "get_player r t = Some tp"
    unfolding get_player_def by blast
  then have "garbage_report ar r a n u1 u2 =
              Inr (r, [ReceiveGarbage t a (username pl) n,
                       AttackEvent (username pl) (username tp) n])"
    using s pl t by (simp add: garbage_report_def)
  with tp show ?thesis by blast
qed

lemma remainder_mono:
  assumes "\<forall>x y w. x \<le> y \<longrightarrow> n_sub ar x w \<le> n_sub ar y w" and "x \<le> y"
  shows "remainder ar ts x k \<le> remainder ar ts y k"
  using assms by (induction k) simp_all

lemma no_fallback:
  assumes ne: "candidates r a \<noteq> []" and w: "\<not> u1 < double_0_7"
    and mono: "\<forall>x y w. x \<le> y \<longrightarrow> n_sub ar x w \<le> n_sub ar y w"
    and all: "remainder ar (candidates r a) (total_weight ar (candidates r a))
                (length (candidates r a)) \<le> 0"
    and le: "n_mul ar u2 (total_weight ar (candidates r a)) \<le> total_weight ar (candidates r a)"
  shows "\<exists>k. stops_at ar (candidates r a) (n_mul ar u2 (total_weight ar (candidates r a))) k \<and>
              selectAttackTarget ar r a u1 u2 = Inr (Some (fst (candidates r a ! k)))"
proof -
  let ?ts = "candidates r a"
  let ?rand = "n_mul ar u2 (total_weight ar ?ts)"
  have "remainder ar ?ts ?rand (length ?ts) \<le> remainder ar ?ts (total_weight ar ?ts) (length ?ts)"
    using mono le by (rule remainder_mono)
  then have fin: "remainder ar ?ts ?rand (length ?ts) \<le> 0" using all by linarith
  have "\<not> (\<forall>j<length ?ts. 0 < remainder ar ?ts ?rand (Suc j))"
  proof
    assume a: "\<forall>j<length ?ts. 0 < remainder ar ?ts ?rand (Suc j)"
    have l: "length ?ts - 1 < length ?ts" and e: "Suc (length ?ts - 1) = length ?ts"
      using ne by simp_all
    from a l have "0 < remainder ar ?ts ?rand (Suc (length ?ts - 1))" by blast
    then have "0 < remainder ar ?ts ?rand (length ?ts)" unfolding e .
    with fin show False by simp
  qed
  with select_weighted [OF ne w, of ar u2] show ?thesis by blast
qed

lemma weight_exact: "weight exact_ops t = real_of_int (p_score (snd t)) + 1"
  by (simp add: weight_def exact_ops_def)

lemma total_exact_acc:
  "foldl (\<lambda>sum t. n_add exact_ops (n_add exact_ops sum (real_of_int (p_score (snd t)))) 1) acc ts =
   acc + (\<Sum>t\<leftarrow>ts. real_of_int (p_score (snd t)) + 1)"
  by (induction ts arbitrary: acc) (simp_all add: exact_ops_def)

lemma total_exact: "total_weight exact_ops ts = (\<Sum>t\<leftarrow>ts. real_of_int (p_score (snd t)) + 1)"
  by (simp add: total_weight_def total_exact_acc)

lemma remainder_exact:
  "k \<le> length ts \<Longrightarrow>
   remainder exact_ops ts rand k = rand - (\<Sum>t\<leftarrow>take k ts. real_of_int (p_score (snd t)) + 1)"
proof (induction k)
  case 0
  then show ?case by simp
next
  case (Suc k)
  then have k: "k < length ts" by simp
  have "remainder exact_ops ts rand (Suc k) =
        remainder exact_ops ts rand k - (real_of_int (p_score (snd (ts ! k))) + 1)"
    by (simp add: weight_exact) (simp add: exact_ops_def)
  then show ?case using Suc.IH k by (simp add: take_Suc_conv_app_nth)
qed

lemma total_exact_positive:
  assumes "\<forall>t\<in>set ts. 0 \<le> p_score (snd t)" "ts \<noteq> []"
  shows "0 < total_weight exact_ops ts"
proof -
  have "real (length ts) \<le> (\<Sum>t\<leftarrow>ts. real_of_int (p_score (snd t)) + 1)"
    using assms(1) by (induction ts) auto
  moreover have "0 < real (length ts)" using assms(2) by simp
  ultimately show ?thesis unfolding total_exact by linarith
qed

lemma select_exact:
  assumes ne: "candidates r a \<noteq> []" and w: "\<not> u1 < double_0_7"
    and sc: "\<forall>t\<in>set (candidates r a). 0 \<le> p_score (snd t)"
    and u: "0 \<le> u2" "u2 < 1"
  shows "0 \<le> n_mul exact_ops u2 (total_weight exact_ops (candidates r a))"
    and "n_mul exact_ops u2 (total_weight exact_ops (candidates r a)) <
         total_weight exact_ops (candidates r a)"
    and "\<exists>k. stops_at exact_ops (candidates r a)
               (n_mul exact_ops u2 (total_weight exact_ops (candidates r a))) k \<and>
             selectAttackTarget exact_ops r a u1 u2 = Inr (Some (fst (candidates r a ! k)))"
proof -
  let ?ts = "candidates r a"
  have pos: "0 < total_weight exact_ops ?ts" using sc ne by (rule total_exact_positive)
  have m: "n_mul exact_ops u2 (total_weight exact_ops ?ts) = u2 * total_weight exact_ops ?ts"
    by (simp add: exact_ops_def)
  show "0 \<le> n_mul exact_ops u2 (total_weight exact_ops ?ts)" unfolding m using u(1) pos by simp
  show lt: "n_mul exact_ops u2 (total_weight exact_ops ?ts) < total_weight exact_ops ?ts"
    unfolding m using u(2) pos by simp
  have mono: "\<forall>x y w. x \<le> y \<longrightarrow> n_sub exact_ops x w \<le> n_sub exact_ops y w"
    by (simp add: exact_ops_def)
  have "remainder exact_ops ?ts (total_weight exact_ops ?ts) (length ?ts) = 0"
    by (simp add: remainder_exact total_exact)
  then have all: "remainder exact_ops ?ts (total_weight exact_ops ?ts) (length ?ts) \<le> 0" by simp
  have le: "n_mul exact_ops u2 (total_weight exact_ops ?ts) \<le> total_weight exact_ops ?ts"
    using lt by simp
  show "\<exists>k. stops_at exact_ops ?ts (n_mul exact_ops u2 (total_weight exact_ops ?ts)) k \<and>
             selectAttackTarget exact_ops r a u1 u2 = Inr (Some (fst (?ts ! k)))"
    using ne w mono all le by (rule no_fallback)
qed

lemma select_some_exact:
  assumes ne: "candidates r a \<noteq> []" and u: "0 \<le> u2" "u2 < 1"
  shows "\<exists>t\<in>fst ` set (candidates r a). selectAttackTarget exact_ops r a u1 u2 = Inr (Some t)"
proof -
  let ?n = "length (candidates r a)"
  have m: "n_mul exact_ops u2 (real ?n) = u2 * real ?n" by (simp add: exact_ops_def)
  have n: "0 < real ?n" using ne by simp
  have "0 \<le> u2 * real ?n" using u(1) by simp
  then have lo: "0 \<le> \<lfloor>u2 * real ?n\<rfloor>" by simp
  have "u2 * real ?n < real ?n" using u(2) n by simp
  then have hi: "\<lfloor>u2 * real ?n\<rfloor> < int ?n" by (simp add: floor_less_iff)
  show ?thesis using ne lo hi unfolding m [symmetric] by (intro select_some) simp_all
qed

lemma weight_of_score:
  assumes "n_add ar (real_of_int (p_score (snd t))) 1 = real_of_int (p_score (snd t)) + 1"
  shows "weight ar t = real_of_int (p_score (snd t)) + 1"
    and "0 \<le> p_score (snd t) \<longrightarrow> 1 \<le> weight ar t"
    and "p_score (snd t) = - 1 \<longrightarrow> weight ar t = 0"
proof -
  show w: "weight ar t = real_of_int (p_score (snd t)) + 1" using assms by (simp add: weight_def)
  show "0 \<le> p_score (snd t) \<longrightarrow> 1 \<le> weight ar t" unfolding w by simp
  show "p_score (snd t) = - 1 \<longrightarrow> weight ar t = 0" unfolding w by simp
qed

text \<open>
  C8, as stated, fails in one point: not every candidate has nonzero weight. The
  \<open>score\<close> branch stores whatever value a client reports. In the room of A, B and C in
  play, B reports the score -1. For an attack of A the candidates are B and C, in this
  order, and their weights \<open>score + 1\<close> are 0 and 1 (the sums -1 + 1 and 0 + 1 are the
  same in doubles). On the weighted branch (first draw 3/4) B is then the target only
  when the start value is 0: with the second draw 1/2 the target is C.
\<close>

theorem candidate_with_weight_zero:
  "status room_negative_score = Playing \<and>
   map fst (candidates room_negative_score ''sa'') = [''sb'', ''sc''] \<and>
   map (\<lambda>t. p_score (snd t)) (candidates room_negative_score ''sa'') = [- 1, 0] \<and>
   map (weight exact_ops) (candidates room_negative_score ''sa'') = [0, 1] \<and>
   total_weight exact_ops (candidates room_negative_score ''sa'') = 1 \<and>
   selectAttackTarget exact_ops room_negative_score ''sa'' (3 / 4) (1 / 2) = Inr (Some ''sc'')"
proof -
  have 1: "status room_negative_score = Playing" by code_simp
  have 2: "map fst (candidates room_negative_score ''sa'') = [''sb'', ''sc'']" by code_simp
  have 3: "map (\<lambda>t. p_score (snd t)) (candidates room_negative_score ''sa'') = [- 1, 0]"
    by code_simp
  have 4: "map (weight exact_ops) (candidates room_negative_score ''sa'') = [0, 1]"
    by code_simp
  have 5: "total_weight exact_ops (candidates room_negative_score ''sa'') = 1" by code_simp
  have 6: "selectAttackTarget exact_ops room_negative_score ''sa'' (3 / 4) (1 / 2) =
           Inr (Some ''sc'')"
    by code_simp
  from 1 2 3 4 5 6 show ?thesis by (intro conjI)
qed

text \<open>
  C8, amended. For every room, attacker \<open>a\<close>, line count \<open>n\<close>, draws \<open>u1\<close>, \<open>u2\<close> and
  arithmetic \<open>ar\<close> (the handler does not look at the room's status, so this holds in
  particular for rooms in play):
  \<^item> the candidates are exactly the living roster members other than the attacker;
  \<^item> without candidates the result is \<open>null\<close> and no garbage is sent;
  \<^item> with candidates, on the uniform branch (\<open>u1\<close> below the double \<open>0.7\<close>) the result is
    the candidate whose index is the floor of the product of \<open>u2\<close> and the number of
    candidates (a \<open>TypeError\<close> if that index were outside the list);
  \<^item> with candidates, on the weighted branch the start value is the product of \<open>u2\<close>
    and the total weight, a candidate weighs \<open>score + 1\<close>, the result is the first
    candidate, in roster order, after whose weight the remainder is at most 0, and the
    last candidate when the remainder stays positive to the end of the list;
  \<^item> a result is always one candidate, and (for a sender of the room and a non-empty
    id) the garbage goes to that one target and the attack is announced;
  \<^item> with candidates, there is exactly such a result unless the index of the uniform
    branch lies outside the list;
  \<^item> a candidate to whose score the arithmetic adds 1 exactly weighs \<open>score + 1\<close>: at
    least 1 when the score is not negative, and 0 when the score is -1;
  \<^item> the last candidate is not needed as a fallback when subtraction is monotonic in
    its first argument, subtracting all weights from the total leaves at most 0, and
    the start value is at most the total;
  \<^item> with exact arithmetic the total is the sum of the numbers \<open>score + 1\<close>; with
    \<open>u2\<close> in \<open>[0, 1)\<close> the result is one candidate on either branch; and on the weighted
    branch, when no score is negative, the start value lies in \<open>[0, total)\<close> and the loop
    stops inside the list.
\<close>

theorem attack_target_selection:
  "fst ` set (candidates r a) = {sid. sid \<noteq> a \<and> (\<exists>p. (sid, p) \<in> set (players r) \<and> alive p)} \<and>
   (candidates r a = [] \<longrightarrow>
      selectAttackTarget ar r a u1 u2 = Inr None \<and> garbage_report ar r a n u1 u2 = Inr (r, [])) \<and>
   (candidates r a \<noteq> [] \<and> u1 < double_0_7 \<longrightarrow>
      selectAttackTarget ar r a u1 u2 =
        (if 0 \<le> \<lfloor>n_mul ar u2 (real (length (candidates r a)))\<rfloor> \<and>
            \<lfloor>n_mul ar u2 (real (length (candidates r a)))\<rfloor> < int (length (candidates r a))
         then Inr (Some (fst (candidates r a !
                                nat \<lfloor>n_mul ar u2 (real (length (candidates r a)))\<rfloor>)))
         else Inl TypeError)) \<and>
   (candidates r a \<noteq> [] \<and> \<not> u1 < double_0_7 \<longrightarrow>
      (\<exists>k. stops_at ar (candidates r a) (n_mul ar u2 (total_weight ar (candidates r a))) k \<and>
            selectAttackTarget ar r a u1 u2 = Inr (Some (fst (candidates r a ! k)))) \<or>
      ((\<forall>j<length (candidates r a).
          0 < remainder ar (candidates r a)
                (n_mul ar u2 (total_weight ar (candidates r a))) (Suc j)) \<and>
       selectAttackTarget ar r a u1 u2 = Inr (Some (fst (last (candidates r a)))))) \<and>
   (\<forall>t. selectAttackTarget ar r a u1 u2 = Inr (Some t) \<longrightarrow> t \<in> fst ` set (candidates r a)) \<and>
   (\<forall>t pl. selectAttackTarget ar r a u1 u2 = Inr (Some t) \<and> get_player r a = Some pl \<and> t \<noteq> [] \<longrightarrow>
      (\<exists>tp. get_player r t = Some tp \<and>
            garbage_report ar r a n u1 u2 =
              Inr (r, [ReceiveGarbage t a (username pl) n,
                       AttackEvent (username pl) (username tp) n]))) \<and>
   (candidates r a \<noteq> [] \<and>
    (u1 < double_0_7 \<longrightarrow>
       0 \<le> \<lfloor>n_mul ar u2 (real (length (candidates r a)))\<rfloor> \<and>
       \<lfloor>n_mul ar u2 (real (length (candidates r a)))\<rfloor> < int (length (candidates r a))) \<longrightarrow>
      (\<exists>t\<in>fst ` set (candidates r a). selectAttackTarget ar r a u1 u2 = Inr (Some t))) \<and>
   (\<forall>t\<in>set (candidates r a).
      n_add ar (real_of_int (p_score (snd t))) 1 = real_of_int (p_score (snd t)) + 1 \<longrightarrow>
      weight ar t = real_of_int (p_score (snd t)) + 1 \<and>
      (0 \<le> p_score (snd t) \<longrightarrow> 1 \<le> weight ar t) \<and>
      (p_score (snd t) = - 1 \<longrightarrow> weight ar t = 0)) \<and>
   (candidates r a \<noteq> [] \<and> \<not> u1 < double_0_7 \<and>
    (\<forall>x y w. x \<le> y \<longrightarrow> n_sub ar x w \<le> n_sub ar y w) \<and>
    remainder ar (candidates r a) (total_weight ar (candidates r a))
      (length (candidates r a)) \<le> 0 \<and>
    n_mul ar u2 (total_weight ar (candidates r a)) \<le> total_weight ar (candidates r a) \<longrightarrow>
      (\<exists>k. stops_at ar (candidates r a) (n_mul ar u2 (total_weight ar (candidates r a))) k \<and>
            selectAttackTarget ar r a u1 u2 = Inr (Some (fst (candidates r a ! k))))) \<and>
   total_weight exact_ops (candidates r a) =
     (\<Sum>t\<leftarrow>candidates r a. real_of_int (p_score (snd t)) + 1) \<and>
   (candidates r a \<noteq> [] \<and> \<not> u1 < double_0_7 \<and>
    (\<forall>t\<in>set (candidates r a). 0 \<le> p_score (snd t)) \<and> 0 \<le> u2 \<and> u2 < 1 \<longrightarrow>
      0 \<le> n_mul exact_ops u2 (total_weight exact_ops (candidates r a)) \<and>
      n_mul exact_ops u2 (total_weight exact_ops (candidates r a)) <
        total_weight exact_ops (candidates r a) \<and>
      (\<exists>k. stops_at exact_ops (candidates r a)
              (n_mul exact_ops u2 (total_weight exact_ops (candidates r a))) k \<and>
            selectAttackTarget exact_ops r a u1 u2 = Inr (Some (fst (candidates r a ! k))))) \<and>
   (candidates r a \<noteq> [] \<and> 0 \<le> u2 \<and> u2 < 1 \<longrightarrow>
      (\<exists>t\<in>fst ` set (candidates r a).
         selectAttackTarget exact_ops r a u1 u2 = Inr (Some t)))"
proof -
  have 1: "fst ` set (candidates r a) =
           {sid. sid \<noteq> a \<and> (\<exists>p. (sid, p) \<in> set (players r) \<and> alive p)}"
    by (rule candidates_ids)
  have 2: "candidates r a = [] \<longrightarrow>
      selectAttackTarget ar r a u1 u2 = Inr None \<and> garbage_report ar r a n u1 u2 = Inr (r, [])"
    using select_none by blast
  have 3: "candidates r a \<noteq> [] \<and> u1 < double_0_7 \<longrightarrow>
      selectAttackTarget ar r a u1 u2 =
        (if 0 \<le> \<lfloor>n_mul ar u2 (real (length (candidates r a)))\<rfloor> \<and>
            \<lfloor>n_mul ar u2 (real (length (candidates r a)))\<rfloor> < int (length (candidates r a))
         then Inr (Some (fst (candidates r a !
                                nat \<lfloor>n_mul ar u2 (real (length (candidates r a)))\<rfloor>)))
         else Inl TypeError)"
    using select_uniform [of r a u1 ar u2] by blast
  have 4: "candidates r a \<noteq> [] \<and> \<not> u1 < double_0_7 \<longrightarrow>
      (\<exists>k. stops_at ar (candidates r a) (n_mul ar u2 (total_weight ar (candidates r a))) k \<and>
            selectAttackTarget ar r a u1 u2 = Inr (Some (fst (candidates r a ! k)))) \<or>
      ((\<forall>j<length (candidates r a).
          0 < remainder ar (candidates r a)
                (n_mul ar u2 (total_weight ar (candidates r a))) (Suc j)) \<and>
       selectAttackTarget ar r a u1 u2 = Inr (Some (fst (last (candidates r a)))))"
    using select_weighted [of r a u1 ar u2] by blast
  have 5: "\<forall>t. selectAttackTarget ar r a u1 u2 = Inr (Some t) \<longrightarrow> t \<in> fst ` set (candidates r a)"
    using select_member [of ar r a u1 u2] by blast
  have 6: "\<forall>t pl. selectAttackTarget ar r a u1 u2 = Inr (Some t) \<and> get_player r a = Some pl \<and> t \<noteq> [] \<longrightarrow>
      (\<exists>tp. get_player r t = Some tp \<and>
            garbage_report ar r a n u1 u2 =
              Inr (r, [ReceiveGarbage t a (username pl) n,
                       AttackEvent (username pl) (username tp) n]))"
    using garbage_delivered [of ar r a u1 u2 _ _ n] by blast
  have 7: "candidates r a \<noteq> [] \<and>
    (u1 < double_0_7 \<longrightarrow>
       0 \<le> \<lfloor>n_mul ar u2 (real (length (candidates r a)))\<rfloor> \<and>
       \<lfloor>n_mul ar u2 (real (length (candidates r a)))\<rfloor> < int (length (candidates r a))) \<longrightarrow>
      (\<exists>t\<in>fst ` set (candidates r a). selectAttackTarget ar r a u1 u2 = Inr (Some t))"
    using select_some [of r a u1 ar u2] by blast
  have 8: "\<forall>t\<in>set (candidates r a).
      n_add ar (real_of_int (p_score (snd t))) 1 = real_of_int (p_score (snd t)) + 1 \<longrightarrow>
      weight ar t = real_of_int (p_score (snd t)) + 1 \<and>
      (0 \<le> p_score (snd t) \<longrightarrow> 1 \<le> weight ar t) \<and>
      (p_score (snd t) = - 1 \<longrightarrow> weight ar t = 0)"
    using weight_of_score [of ar] by blast
  have 9: "candidates r a \<noteq> [] \<and> \<not> u1 < double_0_7 \<and>
    (\<forall>x y w. x \<le> y \<longrightarrow> n_sub ar x w \<le> n_sub ar y w) \<and>
    remainder ar (candidates r a) (total_weight ar (candidates r a))
      (length (candidates r a)) \<le> 0 \<and>
    n_mul ar u2 (total_weight ar (candidates r a)) \<le> total_weight ar (candidates r a) \<longrightarrow>
      (\<exists>k. stops_at ar (candidates r a) (n_mul ar u2 (total_weight ar (candidates r a))) k \<and>
            selectAttackTarget ar r a u1 u2 = Inr (Some (fst (candidates r a ! k))))"
    using no_fallback [of r a u1 ar u2] by blast
  have 10: "total_weight exact_ops (candidates r a) =
     (\<Sum>t\<leftarrow>candidates r a. real_of_int (p_score (snd t)) + 1)"
    by (rule total_exact)
  have 11: "candidates r a \<noteq> [] \<and> \<not> u1 < double_0_7 \<and>
    (\<forall>t\<in>set (candidates r a). 0 \<le> p_score (snd t)) \<and> 0 \<le> u2 \<and> u2 < 1 \<longrightarrow>
      0 \<le> n_mul exact_ops u2 (total_weight exact_ops (candidates r a)) \<and>
      n_mul exact_ops u2 (total_weight exact_ops (candidates r a)) <
        total_weight exact_ops (candidates r a) \<and>
      (\<exists>k. stops_at exact_ops (candidates r a)
              (n_mul exact_ops u2 (total_weight exact_ops (candidates r a))) k \<and>
            selectAttackTarget exact_ops r a u1 u2 = Inr (Some (fst (candidates r a ! k))))"
    using select_exact [of r a u1 u2] by blast
  have 12: "candidates r a \<noteq> [] \<and> 0 \<le> u2 \<and> u2 < 1 \<longrightarrow>
      (\<exists>t\<in>fst ` set (candidates r a).
         selectAttackTarget exact_ops r a u1 u2 = Inr (Some t))"
    using select_some_exact [of r a u2 u1] by blast
  from 1 2 3 4 5 6 7 8 9 10 11 12 show ?thesis by (intro conjI)
qed

theorem attack_target_selection_witness:
  "candidates playing_room_abc ''sa'' \<noteq> [] \<and>
   (\<exists>t\<in>fst ` set (candidates playing_room_abc ''sa'').
      selectAttackTarget exact_ops playing_room_abc ''sa'' (3 / 4) (5 / 8) = Inr (Some t)) \<and>
   (\<exists>k. stops_at exact_ops (candidates playing_room_abc ''sa'')
           (n_mul exact_ops (5 / 8) (total_weight exact_ops (candidates playing_room_abc ''sa''))) k \<and>
         selectAttackTarget exact_ops playing_room_abc ''sa'' (3 / 4) (5 / 8) =
           Inr (Some (fst (candidates playing_room_abc ''sa'' ! k)))) \<and>
   selectAttackTarget exact_ops playing_room_abc ''sa'' (3 / 4) (5 / 8) = Inr (Some ''sc'') \<and>
   selectAttackTarget exact_ops playing_room_abc ''sa'' (1 / 2) (1 / 4) = Inr (Some ''sb'') \<and>
   selectAttackTarget exact_ops playing_room_abc ''sa'' double_0_7 (1 / 2) = Inr (Some ''sb'') \<and>
   selectAttackTarget exact_ops playing_room_abc ''sa'' (double_0_7 - 1 / 2 ^ 53) (1 / 2) =
     Inr (Some ''sc'') \<and>
   garbage_report exact_ops playing_room_abc ''sa'' 2 (3 / 4) (5 / 8) =
     Inr (playing_room_abc, [ReceiveGarbage ''sc'' ''sa'' ''A'' 2, AttackEvent ''A'' ''C'' 2]) \<and>
   candidates finished_room_abc ''sa'' = [] \<and>
   garbage_report exact_ops finished_room_abc ''sa'' 2 (3 / 4) (5 / 8) = Inr (finished_room_abc, [])"
proof -
  have ne: "candidates playing_room_abc ''sa'' \<noteq> []" by code_simp
  have sc: "\<forall>t\<in>set (candidates playing_room_abc ''sa''). 0 \<le> p_score (snd t)" by code_simp
  have u: "\<not> (3 / 4 :: real) < double_0_7" "(0::real) \<le> 5 / 8" "(5 / 8 :: real) < 1"
    by (simp_all add: double_0_7_def)
  have c: "selectAttackTarget exact_ops playing_room_abc ''sa'' (3 / 4) (5 / 8) = Inr (Some ''sc'')"
    by code_simp
  have d: "selectAttackTarget exact_ops playing_room_abc ''sa'' (1 / 2) (1 / 4) = Inr (Some ''sb'')"
    by code_simp
  have d1: "selectAttackTarget exact_ops playing_room_abc ''sa'' double_0_7 (1 / 2) =
            Inr (Some ''sb'')"
    by code_simp
  have d2: "selectAttackTarget exact_ops playing_room_abc ''sa'' (double_0_7 - 1 / 2 ^ 53) (1 / 2) =
            Inr (Some ''sc'')"
    by code_simp
  have e: "candidates finished_room_abc ''sa'' = []" by code_simp
  have pl: "get_player playing_room_abc ''sa'' = Some (new_player 1 ''A'')" by code_simp
  have tp: "get_player playing_room_abc ''sc'' = Some (new_player 3 ''C'')" by code_simp
  have names: "username (new_player 1 ''A'') = ''A''" "username (new_player 3 ''C'') = ''C''"
    by (simp_all add: new_player_def)
  note t1 = attack_target_selection
    [where ar = exact_ops and r = playing_room_abc and a = "''sa''" and ?u1.0 = "3 / 4"
       and ?u2.0 = "5 / 8" and n = 2]
  note t2 = attack_target_selection
    [where ar = exact_ops and r = finished_room_abc and a = "''sa''" and ?u1.0 = "3 / 4"
       and ?u2.0 = "5 / 8" and n = 2]
  note some = t1 [THEN conjunct2, THEN conjunct2, THEN conjunct2, THEN conjunct2,
                  THEN conjunct2, THEN conjunct2, THEN conjunct1]
  note sent = t1 [THEN conjunct2, THEN conjunct2, THEN conjunct2, THEN conjunct2,
                  THEN conjunct2, THEN conjunct1]
  note exact = t1 [THEN conjunct2, THEN conjunct2, THEN conjunct2, THEN conjunct2,
                   THEN conjunct2, THEN conjunct2, THEN conjunct2, THEN conjunct2,
                   THEN conjunct2, THEN conjunct2, THEN conjunct1]
  note none = t2 [THEN conjunct2, THEN conjunct1]
  have a: "\<exists>t\<in>fst ` set (candidates playing_room_abc ''sa'').
      selectAttackTarget exact_ops playing_room_abc ''sa'' (3 / 4) (5 / 8) = Inr (Some t)"
    using some ne u(1) by simp
  have b: "\<exists>k. stops_at exact_ops (candidates playing_room_abc ''sa'')
           (n_mul exact_ops (5 / 8) (total_weight exact_ops (candidates playing_room_abc ''sa''))) k \<and>
         selectAttackTarget exact_ops playing_room_abc ''sa'' (3 / 4) (5 / 8) =
           Inr (Some (fst (candidates playing_room_abc ''sa'' ! k)))"
    using exact ne sc u by blast
  from sent [rule_format, of "''sc''" "new_player 1 ''A''"] c pl
  obtain tp' where "get_player playing_room_abc ''sc'' = Some tp'"
    and gr: "garbage_report exact_ops playing_room_abc ''sa'' 2 (3 / 4) (5 / 8) =
               Inr (playing_room_abc,
                    [ReceiveGarbage ''sc'' ''sa'' (username (new_player 1 ''A'')) 2,
                     AttackEvent (username (new_player 1 ''A'')) (username tp') 2])"
    by auto
  then have "tp' = new_player 3 ''C''" using tp by simp
  with gr names have g1: "garbage_report exact_ops playing_room_abc ''sa'' 2 (3 / 4) (5 / 8) =
     Inr (playing_room_abc, [ReceiveGarbage ''sc'' ''sa'' ''A'' 2, AttackEvent ''A'' ''C'' 2])"
    by simp
  have g: "garbage_report exact_ops finished_room_abc ''sa'' 2 (3 / 4) (5 / 8) =
             Inr (finished_room_abc, [])"
    using none e by simp
  from ne a b c d d1 d2 g1 e g show ?thesis by (intro conjI)
qed

subsection \<open>Elimination and ranks\<close>

lemma roster_split:
  assumes "distinct (map fst ps)" and "map_of ps s = Some pl"
  shows "\<exists>xs ys. ps = xs @ (s, pl) # ys \<and> s \<notin> fst ` set xs \<and> s \<notin> fst ` set ys"
proof -
  from assms(2) have "(s, pl) \<in> set ps" by (rule map_of_SomeD)
  then obtain xs ys where ps: "ps = xs @ (s, pl) # ys" by (auto dest: split_list)
  with assms(1) have "s \<notin> fst ` set xs" "s \<notin> fst ` set ys" by auto
  with ps show ?thesis by blast
qed

lemma update_other:
  assumes "s \<notin> fst ` set xs"
  shows "map (\<lambda>(k, p). if k = s then (k, f p) else (k, p)) xs = xs"
  using assms by (induction xs) auto

lemma update_split:
  assumes "s \<notin> fst ` set xs" "s \<notin> fst ` set ys"
  shows "map (\<lambda>(k, p). if k = s then (k, f p) else (k, p)) (xs @ (s, pl) # ys) = xs @ (s, f pl) # ys"
  using assms by (simp add: update_other)

lemma map_of_split:
  assumes "s \<notin> fst ` set xs"
  shows "map_of (xs @ (s, v) # ys) s = Some v"
  using assms by (induction xs) auto

lemma map_of_split_other:
  assumes "t \<noteq> s"
  shows "map_of (xs @ (s, v) # ys) t = map_of (xs @ (s, v') # ys) t"
  using assms by (induction xs) auto

lemma crown_split:
  assumes "\<forall>t\<in>set xs. \<not> alive (snd t)" "alive pt"
  shows "crown_first_alive (xs @ (t, pt) # ys) = xs @ (t, pt\<lparr>alive := False, p_rank := Some 1\<rparr>) # ys"
  using assms by (induction xs) auto

lemma crown_none:
  assumes "\<forall>t\<in>set ps. \<not> alive (snd t)"
  shows "crown_first_alive ps = ps"
  using assms by (induction ps) auto

lemma alive_count_append: "alive_count (xs @ ys) = alive_count xs + alive_count ys"
  by (simp add: alive_count_def)

lemma alive_count_Cons:
  "alive_count (t # ys) = (if alive (snd t) then 1 else 0) + alive_count ys"
  by (simp add: alive_count_def)

lemma dead_ranks_append: "dead_ranks (xs @ ys) = dead_ranks xs + dead_ranks ys"
  by (simp add: dead_ranks_def)

lemma dead_ranks_Cons:
  "dead_ranks (t # ys) = (if alive (snd t) then {#} else {#p_rank (snd t)#}) + dead_ranks ys"
  by (simp add: dead_ranks_def)

lemma alive_count_zero: "alive_count ps = 0 \<longleftrightarrow> (\<forall>t\<in>set ps. \<not> alive (snd t))"
  by (auto simp: alive_count_def filter_empty_conv)

lemma alive_count_le: "alive_count ps \<le> length ps"
  by (simp add: alive_count_def)

lemma dead_ranks_all:
  "alive_count ps = 0 \<Longrightarrow> dead_ranks ps = mset (map (\<lambda>t. p_rank (snd t)) ps)"
  by (simp add: alive_count_zero dead_ranks_def)

lemma game_over_reports_append:
  "game_over_reports r (xs @ [s]) = fst (game_over_report (game_over_reports r xs) s)"
  by (induction xs arbitrary: r) simp_all


lemma update_lookup:
  "map_of (map (\<lambda>(k, p). if k = s then (k, f p) else (k, p)) ps) t =
     (if t = s then map_option f (map_of ps t) else map_of ps t)"
  by (induction ps) auto

lemma update_keys: "map fst (map (\<lambda>(k, p). if k = s then (k, f p) else (k, p)) ps) = map fst ps"
  by (induction ps) auto

lemma update_counts:
  assumes d: "distinct (map fst ps)" and l: "map_of ps s = Some pl" and a: "alive pl"
    and f: "\<not> alive (f pl)"
  shows "alive_count ps = Suc (alive_count (map (\<lambda>(k, p). if k = s then (k, f p) else (k, p)) ps))"
    and "dead_ranks (map (\<lambda>(k, p). if k = s then (k, f p) else (k, p)) ps) =
           dead_ranks ps + {#p_rank (f pl)#}"
proof -
  from roster_split [OF d l] obtain xs ys where
    ps: "ps = xs @ (s, pl) # ys" and n: "s \<notin> fst ` set xs" "s \<notin> fst ` set ys"
    by blast
  have u: "map (\<lambda>(k, p). if k = s then (k, f p) else (k, p)) ps = xs @ (s, f pl) # ys"
    unfolding ps using n by (rule update_split)
  show "alive_count ps = Suc (alive_count (map (\<lambda>(k, p). if k = s then (k, f p) else (k, p)) ps))"
    unfolding u unfolding ps using a f by (simp add: alive_count_append alive_count_Cons)
  show "dead_ranks (map (\<lambda>(k, p). if k = s then (k, f p) else (k, p)) ps) =
           dead_ranks ps + {#p_rank (f pl)#}"
    unfolding u unfolding ps using a f by (simp add: dead_ranks_append dead_ranks_Cons)
qed

lemma crown_keys: "map fst (crown_first_alive ps) = map fst ps"
  by (induction ps) auto

lemma crown_counts:
  "alive_count ps = Suc n \<Longrightarrow>
   alive_count (crown_first_alive ps) = n \<and>
   dead_ranks (crown_first_alive ps) = dead_ranks ps + {#Some 1#}"
proof (induction ps)
  case Nil
  then show ?case by (simp add: alive_count_def)
next
  case (Cons t ps)
  obtain k p where t: "t = (k, p)" by (cases t)
  show ?case
  proof (cases "alive p")
    case True
    then show ?thesis using Cons.prems t by (simp add: alive_count_Cons dead_ranks_Cons)
  next
    case False
    then have "alive_count ps = Suc n" using Cons.prems t by (simp add: alive_count_Cons)
    from Cons.IH [OF this] show ?thesis using False t
      by (simp add: alive_count_Cons dead_ranks_Cons)
  qed
qed

lemma crown_lookup_dead:
  "map_of ps s = Some q \<Longrightarrow> \<not> alive q \<Longrightarrow> map_of (crown_first_alive ps) s = Some q"
  by (induction ps) (auto split: if_splits)

lemma alive_count_zero_lookup:
  assumes "alive_count ps = 0" "map_of ps t = Some pt"
  shows "\<not> alive pt"
proof -
  from assms(2) have "(t, pt) \<in> set ps" by (rule map_of_SomeD)
  with assms(1) show ?thesis by (auto simp: alive_count_zero)
qed

lemma crown_lookup_alive:
  "alive_count ps = 1 \<Longrightarrow> map_of ps t = Some pt \<Longrightarrow> alive pt \<Longrightarrow>
   map_of (crown_first_alive ps) t = Some (pt\<lparr>alive := False, p_rank := Some 1\<rparr>)"
proof (induction ps)
  case Nil
  then show ?case by simp
next
  case (Cons e ps)
  obtain k p where e: "e = (k, p)" by (cases e)
  show ?case
  proof (cases "alive p")
    case True
    then have z: "alive_count ps = 0" using Cons.prems(1) e by (simp add: alive_count_Cons)
    show ?thesis
    proof (cases "t = k")
      case True
      then show ?thesis using Cons.prems e \<open>alive p\<close> by simp
    next
      case False
      then have "map_of ps t = Some pt" using Cons.prems(2) e by simp
      from alive_count_zero_lookup [OF z this] Cons.prems(3) show ?thesis by simp
    qed
  next
    case False
    then have one: "alive_count ps = 1" using Cons.prems(1) e by (simp add: alive_count_Cons)
    have "t \<noteq> k" using Cons.prems(2,3) e False by auto
    then have "map_of ps t = Some pt" using Cons.prems(2) e by simp
    from Cons.IH [OF one this Cons.prems(3)] show ?thesis using e False \<open>t \<noteq> k\<close> by simp
  qed
qed

lemma ranks_from: "i \<le> j \<Longrightarrow> mset (map Some [i + 1..j]) + {#Some i#} = mset (map Some [i..j])"
  by (subst (2) upto_rec1) simp_all


lemma crown_length: "length (crown_first_alive ps) = length ps"
  by (induction ps) auto

lemma match_inv_finishedI:
  assumes "length (players r) = M" "distinct (map fst (players r))" "status r = Finished"
    "alive_count (players r) = 0" "dead_ranks (players r) = mset (map Some [1..int M])"
  shows "match_inv M r"
  using assms unfolding match_inv_def by blast

lemma match_inv_playingI:
  assumes "length (players r) = M" "distinct (map fst (players r))" "status r = Playing"
    "alivePlayers r = int (alive_count (players r))" "2 \<le> alive_count (players r)"
    "dead_ranks (players r) = mset (map Some [alivePlayers r + 1..int M])"
  shows "match_inv M r"
  using assms unfolding match_inv_def by blast

lemma checkGameEnd_fst:
  "fst (checkGameEnd r) =
     (if alivePlayers r \<le> 1 \<and> status r = Playing
      then r\<lparr>status := Finished, players := crown_first_alive (players r)\<rparr> else r)"
  by (simp add: checkGameEnd_def Let_def)

lemma report_fst:
  assumes "get_player r s = Some pl" "alive pl"
  shows "fst (game_over_report r s) =
         fst (checkGameEnd
               ((update_player s (\<lambda>p. p\<lparr>alive := False, p_rank := Some (alivePlayers r)\<rparr>) r)
                  \<lparr>alivePlayers := alivePlayers r - 1\<rparr>))"
  using assms by (simp add: game_over_report_def Let_def update_player_def split: prod.splits)

lemma report_noop:
  assumes "\<And>pl. get_player r s = Some pl \<Longrightarrow> \<not> alive pl"
  shows "game_over_report r s = (r, [])"
  using assms by (cases "get_player r s") (simp_all add: game_over_report_def)

lemma report_step:
  assumes inv: "match_inv M r" and st: "status r = Playing"
    and pl: "get_player r s = Some pl" and al: "alive pl"
  shows "match_inv M (fst (game_over_report r s))"
    and "get_player (fst (game_over_report r s)) s =
           Some (pl\<lparr>alive := False, p_rank := Some (alivePlayers r)\<rparr>)"
    and "alivePlayers (fst (game_over_report r s)) = alivePlayers r - 1"
    and "alivePlayers r - 1 \<le> 1 \<Longrightarrow> status (fst (game_over_report r s)) = Finished"
    and "alivePlayers r - 1 \<le> 1 \<Longrightarrow> t \<noteq> s \<Longrightarrow> get_player r t = Some pt \<Longrightarrow> alive pt \<Longrightarrow>
           get_player (fst (game_over_report r s)) t =
             Some (pt\<lparr>alive := False, p_rank := Some 1\<rparr>)"
proof -
  let ?f = "\<lambda>p. p\<lparr>alive := False, p_rank := Some (alivePlayers r)\<rparr>"
  let ?ps = "players r"
  let ?ps1 = "map (\<lambda>(k, p). if k = s then (k, ?f p) else (k, p)) ?ps"
  let ?r2 = "(update_player s ?f r)\<lparr>alivePlayers := alivePlayers r - 1\<rparr>"
  have len: "length ?ps = M" and d: "distinct (map fst ?ps)"
    and cnt: "alivePlayers r = int (alive_count ?ps)" and two: "2 \<le> alive_count ?ps"
    and dr: "dead_ranks ?ps = mset (map Some [alivePlayers r + 1..int M])"
    using inv st by (auto simp: match_inv_def)
  have l: "map_of ?ps s = Some pl" using pl by (simp add: get_player_def)
  have nf: "\<not> alive (?f pl)" by simp
  from update_counts [where f = ?f, OF d l al nf]
  have c1: "alive_count ?ps = Suc (alive_count ?ps1)"
    and d1: "dead_ranks ?ps1 = dead_ranks ?ps + {#Some (alivePlayers r)#}"
    by simp_all
  have k1: "map fst ?ps1 = map fst ?ps" by (rule update_keys)
  have le: "alivePlayers r \<le> int M" using cnt len alive_count_le [of ?ps] by simp
  have d1': "dead_ranks ?ps1 = mset (map Some [alivePlayers r..int M])"
    unfolding d1 dr using le by (rule ranks_from)
  have p2: "players ?r2 = ?ps1" "status ?r2 = Playing" "alivePlayers ?r2 = alivePlayers r - 1"
    using st by (simp_all add: update_player_def)
  have fst: "fst (game_over_report r s) = fst (checkGameEnd ?r2)"
    using pl al by (rule report_fst)
  have ls: "map_of ?ps1 s = Some (?f pl)" using l by (simp add: update_lookup)
  show "alivePlayers (fst (game_over_report r s)) = alivePlayers r - 1"
    unfolding fst checkGameEnd_fst using p2 by simp
  show "alivePlayers r - 1 \<le> 1 \<Longrightarrow> status (fst (game_over_report r s)) = Finished"
    unfolding fst checkGameEnd_fst using p2 by simp
  show "get_player (fst (game_over_report r s)) s = Some (?f pl)"
    unfolding fst checkGameEnd_fst get_player_def using p2 ls nf
    by (simp add: crown_lookup_dead)
  show "match_inv M (fst (game_over_report r s))"
  proof (cases "alivePlayers r - 1 \<le> 1")
    case True
    let ?r3 = "?r2\<lparr>status := Finished, players := crown_first_alive (players ?r2)\<rparr>"
    have r3: "fst (game_over_report r s) = ?r3"
      unfolding fst checkGameEnd_fst using True p2 by simp
    have one: "alive_count ?ps1 = Suc 0" using True cnt two c1 by simp
    from crown_counts [OF one]
    have z: "alive_count (crown_first_alive ?ps1) = 0"
      and dz: "dead_ranks (crown_first_alive ?ps1) = dead_ranks ?ps1 + {#Some 1#}"
      by simp_all
    have a2: "alivePlayers r = 2" using True cnt two by simp
    have "dead_ranks (crown_first_alive ?ps1) = dead_ranks ?ps1 + {#Some 1#}" by (rule dz)
    also have "\<dots> = mset (map Some [1 + 1..int M]) + {#Some 1#}" using d1' a2 by simp
    also have "\<dots> = mset (map Some [1..int M])" using le a2 by (intro ranks_from) simp
    finally have dd: "dead_ranks (crown_first_alive ?ps1) = mset (map Some [1..int M])" .
    have ll: "length (crown_first_alive ?ps1) = M" using len by (simp add: crown_length)
    have kk: "distinct (map fst (crown_first_alive ?ps1))" unfolding crown_keys k1 by (rule d)
    show ?thesis
      unfolding r3
      by (rule match_inv_finishedI) (simp_all add: p2 ll kk z dd)
  next
    case False
    have r3: "fst (game_over_report r s) = ?r2"
      unfolding fst checkGameEnd_fst using False p2 by simp
    have f1: "2 \<le> alive_count ?ps1" and f2: "alivePlayers r - 1 = int (alive_count ?ps1)"
      using False cnt c1 by simp_all
    have f3: "length ?ps1 = M" using len by simp
    have f4: "dead_ranks ?ps1 = mset (map Some [alivePlayers r - 1 + 1..int M])"
      using d1' by simp
    have f5: "distinct (map fst ?ps1)" unfolding k1 by (rule d)
    show ?thesis
      unfolding r3
    proof (rule match_inv_playingI)
      show "length (players ?r2) = M" unfolding p2 by (rule f3)
      show "distinct (map fst (players ?r2))" unfolding p2 by (rule f5)
      show "status ?r2 = Playing" by (rule p2)
      show "alivePlayers ?r2 = int (alive_count (players ?r2))" unfolding p2 by (rule f2)
      show "2 \<le> alive_count (players ?r2)" unfolding p2 by (rule f1)
      show "dead_ranks (players ?r2) = mset (map Some [alivePlayers ?r2 + 1..int M])"
        unfolding p2 by (rule f4)
    qed
  qed
  show "get_player (fst (game_over_report r s)) t = Some (pt\<lparr>alive := False, p_rank := Some 1\<rparr>)"
    if h: "alivePlayers r - 1 \<le> 1" "t \<noteq> s" "get_player r t = Some pt" "alive pt"
  proof -
    have one: "alive_count ?ps1 = 1" using h(1) cnt two c1 by simp
    have lt: "map_of ?ps1 t = Some pt" using h(2,3) by (simp add: update_lookup get_player_def)
    from crown_lookup_alive [OF one lt h(4)] show ?thesis
      unfolding fst checkGameEnd_fst get_player_def using p2 h(1) by simp
  qed
qed


lemma inv_step:
  assumes inv: "match_inv M r"
  shows "match_inv M (fst (game_over_report r s))"
proof (cases "\<exists>pl. get_player r s = Some pl \<and> alive pl")
  case False
  then have "game_over_report r s = (r, [])" by (intro report_noop) auto
  then show ?thesis using inv by simp
next
  case True
  then obtain pl where pl: "get_player r s = Some pl" "alive pl" by blast
  have "status r = Playing"
  proof (rule ccontr)
    assume "status r \<noteq> Playing"
    then have "alive_count (players r) = 0" using inv by (auto simp: match_inv_def)
    from alive_count_zero_lookup [OF this] pl show False by (simp add: get_player_def)
  qed
  from report_step(1) [OF inv this pl] show ?thesis .
qed

lemma inv_reports:
  "match_inv M r \<Longrightarrow> match_inv M (game_over_reports r sids)"
  by (induction sids arbitrary: r) (simp_all add: inv_step)

lemma start_fst:
  assumes "status r0 = Waiting" "2 \<le> length (players r0)"
  shows "fst (start_multi_game r0 u) =
         r0\<lparr>status := Playing, alivePlayers := int (length (players r0)),
            seed := Some \<lfloor>u\<rfloor>,
            players := map (\<lambda>(k, p). (k, p\<lparr>p_score := 0, alive := True,
                                              p_rank := None, p_board := None\<rparr>))
                         (players r0)\<rparr>"
  using assms by (simp add: start_multi_game_def Let_def)

lemma start_inv:
  assumes d: "distinct (map fst (players r0))" and w: "status r0 = Waiting"
    and two: "2 \<le> length (players r0)"
  shows "match_inv (length (players r0)) (fst (start_multi_game r0 u))"
proof -
  let ?ps = "map (\<lambda>(k, p). (k, p\<lparr>p_score := 0, alive := True,
                                    p_rank := None, p_board := None\<rparr>)) (players r0)"
  have keys: "fst \<circ> (\<lambda>(k, p). (k, p\<lparr>p_score := 0, alive := True,
                                    p_rank := None, p_board := None\<rparr>)) = fst"
    by (auto simp: fun_eq_iff)
  have all: "filter (\<lambda>t. alive (snd t)) ?ps = ?ps" by (auto simp: filter_id_conv)
  have none: "filter (\<lambda>t. \<not> alive (snd t)) ?ps = []" by (auto simp: filter_empty_conv)
  have ac: "alive_count ?ps = length (players r0)" unfolding alive_count_def all by simp
  have dr: "dead_ranks ?ps = {#}" unfolding dead_ranks_def none by simp
  show ?thesis
    unfolding start_fst [OF w two]
  proof (rule match_inv_playingI)
    show "dead_ranks (players (r0\<lparr>status := Playing, alivePlayers := int (length (players r0)),
            seed := Some \<lfloor>u\<rfloor>, players := ?ps\<rparr>)) =
          mset (map Some [alivePlayers (r0\<lparr>status := Playing,
            alivePlayers := int (length (players r0)),
            seed := Some \<lfloor>u\<rfloor>, players := ?ps\<rparr>) + 1..int (length (players r0))])"
      using dr by simp
  qed (simp_all add: ac keys d two)
qed


lemma inv_alive_playing:
  assumes "match_inv M r" "get_player r s = Some pl" "alive pl"
  shows "status r = Playing"
proof (rule ccontr)
  assume "status r \<noteq> Playing"
  then have "alive_count (players r) = 0" using assms(1) by (auto simp: match_inv_def)
  from alive_count_zero_lookup [OF this] assms(2,3) show False by (simp add: get_player_def)
qed

lemma match_state_inv:
  assumes "distinct (map fst (players r0))" "status r0 = Waiting" "2 \<le> length (players r0)"
  shows "match_inv (length (players r0)) (match_state r0 u sids)"
  unfolding match_state_def by (rule inv_reports) (rule start_inv [OF assms])

lemma match_state_snoc:
  "match_state r0 u (xs @ [s]) = fst (game_over_report (match_state r0 u xs) s)"
  by (simp add: match_state_def game_over_reports_append)

text \<open>
  C2. Take a waiting battle room with \<open>M \<ge> 2\<close> players (distinct socket ids), let the
  host start the game and let any sequence of \<open>game_over\<close> reports arrive. Then:
  \<^item> the game starts in play with the counter of living players at \<open>M\<close>;
  \<^item> each report of a living player gives that player the rank equal to the counter
    before the report and lowers the counter by one; when the counter thereby drops to
    1 or less the room is finished and the player still alive gets rank 1;
  \<^item> once the room is finished, the ranks of the roster are the numbers \<open>1..M\<close>, each
    exactly once.
\<close>

theorem elimination_ranks:
  assumes d: "distinct (map fst (players r0))" and w: "status r0 = Waiting"
    and two: "2 \<le> length (players r0)"
  shows "status (match_state r0 u []) = Playing \<and>
         alivePlayers (match_state r0 u []) = int (length (players r0)) \<and>
         (\<forall>k<length sids. \<forall>pl.
            get_player (match_state r0 u (take k sids)) (sids ! k) = Some pl \<and> alive pl \<longrightarrow>
            get_player (match_state r0 u (take (Suc k) sids)) (sids ! k) =
              Some (pl\<lparr>alive := False,
                       p_rank := Some (alivePlayers (match_state r0 u (take k sids)))\<rparr>) \<and>
            alivePlayers (match_state r0 u (take (Suc k) sids)) =
              alivePlayers (match_state r0 u (take k sids)) - 1 \<and>
            (alivePlayers (match_state r0 u (take k sids)) - 1 \<le> 1 \<longrightarrow>
               status (match_state r0 u (take (Suc k) sids)) = Finished \<and>
               (\<forall>t pt. t \<noteq> sids ! k \<and>
                   get_player (match_state r0 u (take k sids)) t = Some pt \<and> alive pt \<longrightarrow>
                   get_player (match_state r0 u (take (Suc k) sids)) t =
                     Some (pt\<lparr>alive := False, p_rank := Some 1\<rparr>)))) \<and>
         (status (match_state r0 u sids) = Finished \<longrightarrow>
            mset (ranks (match_state r0 u sids)) = mset (map Some [1..int (length (players r0))]))"
proof (intro conjI allI impI)
  show "status (match_state r0 u []) = Playing"
    by (simp add: match_state_def start_fst [OF w two])
  show "alivePlayers (match_state r0 u []) = int (length (players r0))"
    by (simp add: match_state_def start_fst [OF w two])
next
  fix k pl
  assume k: "k < length sids"
    and h: "get_player (match_state r0 u (take k sids)) (sids ! k) = Some pl \<and> alive pl"
  let ?r = "match_state r0 u (take k sids)"
  have nxt: "match_state r0 u (take (Suc k) sids) = fst (game_over_report ?r (sids ! k))"
    using k by (simp add: take_Suc_conv_app_nth match_state_snoc)
  have inv: "match_inv (length (players r0)) ?r" by (rule match_state_inv [OF d w two])
  have pl: "get_player ?r (sids ! k) = Some pl" and al: "alive pl" using h by simp_all
  have st: "status ?r = Playing" using inv pl al by (rule inv_alive_playing)
  show "get_player (match_state r0 u (take (Suc k) sids)) (sids ! k) =
              Some (pl\<lparr>alive := False, p_rank := Some (alivePlayers ?r)\<rparr>)"
    unfolding nxt by (rule report_step(2) [OF inv st pl al])
  show "alivePlayers (match_state r0 u (take (Suc k) sids)) = alivePlayers ?r - 1"
    unfolding nxt by (rule report_step(3) [OF inv st pl al])
  {
    assume c: "alivePlayers ?r - 1 \<le> 1"
    show "status (match_state r0 u (take (Suc k) sids)) = Finished"
      unfolding nxt by (rule report_step(4) [OF inv st pl al c])
    fix t pt
    assume o: "t \<noteq> sids ! k \<and> get_player ?r t = Some pt \<and> alive pt"
    then have o1: "t \<noteq> sids ! k" and o2: "get_player ?r t = Some pt" and o3: "alive pt"
      by simp_all
    show "get_player (match_state r0 u (take (Suc k) sids)) t =
            Some (pt\<lparr>alive := False, p_rank := Some 1\<rparr>)"
      unfolding nxt by (rule report_step(5) [OF inv st pl al c o1 o2 o3])
  }
next
  assume f: "status (match_state r0 u sids) = Finished"
  let ?r = "match_state r0 u sids"
  have inv: "match_inv (length (players r0)) ?r" by (rule match_state_inv [OF d w two])
  with f have z: "alive_count (players ?r) = 0"
    and dr: "dead_ranks (players ?r) = mset (map Some [1..int (length (players r0))])"
    by (auto simp: match_inv_def)
  from dead_ranks_all [OF z] dr
  show "mset (ranks ?r) = mset (map Some [1..int (length (players r0))])"
    by (simp add: ranks_def)
qed


theorem elimination_ranks_witness:
  "status (match_state waiting_room_abc (1 / 2) [''sb'', ''sc'']) = Finished \<and>
   mset (ranks (match_state waiting_room_abc (1 / 2) [''sb'', ''sc''])) =
     mset (map Some [1..int (length (players waiting_room_abc))]) \<and>
   ranks (match_state waiting_room_abc (1 / 2) [''sb'', ''sc'']) = [Some 1, Some 3, Some 2]"
proof -
  have d: "distinct (map fst (players waiting_room_abc))"
    and w: "status waiting_room_abc = Waiting"
    and two: "2 \<le> length (players waiting_room_abc)"
    by (simp_all add: waiting_room_abc_def)
  have f: "status (match_state waiting_room_abc (1 / 2) [''sb'', ''sc'']) = Finished"
    by code_simp
  have r: "ranks (match_state waiting_room_abc (1 / 2) [''sb'', ''sc'']) = [Some 1, Some 3, Some 2]"
    by code_simp
  have "mset (ranks (match_state waiting_room_abc (1 / 2) [''sb'', ''sc''])) =
     mset (map Some [1..int (length (players waiting_room_abc))])"
    using elimination_ranks [OF d w two, of "1 / 2" "[''sb'', ''sc'']"] f by blast
  with f r show ?thesis by (intro conjI)
qed

end
